theory Spec2Isabelle
  imports Complex_Main "HOL-Library.Word" "HOL-Library.Multiset"
begin

unbundle bit_operations_syntax

section \<open>Data model\<close>

text \<open>
  The Python exceptions the modelled functions can raise. \<open>Exception\<close> carries the
  message of a bare \<^verbatim>\<open>raise Exception("...")\<close>. \<open>ZeroDivision\<close> is numpy's
  divide-by-zero condition of a float division: where the reals have a quotient numpy
  has one too, and where the divisor is 0 numpy signals the condition (a warning and an
  infinite or undefined entry, or FloatingPointError, as \<^verbatim>\<open>np.seterr\<close> says).
\<close>

datatype py_error =
  ValueError | IndexError | KeyError | TypeError | AssertionError | ZeroDivision | Exception string

section \<open>Boundary partner detection (syconn/extraction/block\_processing.py)\<close>

subsection \<open>kernel\<close>

text \<open>
  \<^verbatim>\<open>np.unique(chunk, return_counts=True)\<close> flattens the window and returns its distinct
  values in ascending order together with how often each occurs. The window is modelled
  as the flat list of its entries, ids as unbounded integers.
\<close>

definition np_unique :: "int list \<Rightarrow> int list \<times> int list" where
  "np_unique chunk =
     (let unique_ids = sort (remdups chunk)
      in (unique_ids, map (\<lambda>u. int (count_list chunk u)) unique_ids))"

text \<open>\<^verbatim>\<open>counts[unique_ids == v] = -1\<close>: a boolean-mask assignment.\<close>

definition mask_assign :: "int list \<Rightarrow> int \<Rightarrow> int list \<Rightarrow> int list" where
  "mask_assign unique_ids v counts =
     map (\<lambda>(u, c). if u = v then - 1 else c) (zip unique_ids counts)"

text \<open>\<^verbatim>\<open>np.max\<close> raises ValueError on an array without elements.\<close>

definition np_max :: "int list \<Rightarrow> py_error + int" where
  "np_max cs = (case cs of [] \<Rightarrow> Inl ValueError | c # rest \<Rightarrow> Inr (fold max rest c))"

text \<open>\<^verbatim>\<open>np.argmax\<close>: the index of the first occurrence of the maximum.\<close>

definition np_argmax :: "int list \<Rightarrow> nat" where
  "np_argmax cs = length (takeWhile (\<lambda>c. c \<noteq> fold max (tl cs) (hd cs)) cs)"

definition kernel :: "int list \<Rightarrow> int \<Rightarrow> py_error + int" where
  "kernel chunk center_id =
     (let (unique_ids, counts) = np_unique chunk;
          counts = mask_assign unique_ids 0 counts;
          counts = mask_assign unique_ids center_id counts
      in case np_max counts of
           Inl e \<Rightarrow> Inl e
         | Inr m \<Rightarrow>
             if m > 0 then
               (let partner_id = unique_ids ! np_argmax counts
                in if center_id > partner_id
                   then Inr (push_bit 32 partner_id + center_id)
                   else Inr (push_bit 32 center_id + partner_id))
             else Inr 0)"


subsection \<open>process\_block and process\_block\_nonzero\<close>

text \<open>
  A three-dimensional numpy array is a list of planes of rows, indexed \<open>a ! x ! y ! z\<close>.
  Keys are kept as the integers kernel returns; stencil sizes and coordinates are
  natural numbers.
\<close>

type_synonym arr3 = "int list list list"

definition shape3 :: "arr3 \<Rightarrow> nat \<times> nat \<times> nat" where
  "shape3 a =
     (length a,
      (case a of [] \<Rightarrow> 0 | p # _ \<Rightarrow> length p),
      (case a of [] \<Rightarrow> 0 | p # _ \<Rightarrow> (case p of [] \<Rightarrow> 0 | r # _ \<Rightarrow> length r)))"

definition zeros3 :: "nat \<times> nat \<times> nat \<Rightarrow> arr3" where
  "zeros3 s = (case s of (sx, sy, sz) \<Rightarrow> replicate sx (replicate sy (replicate sz 0)))"

text \<open>Reading and writing one voxel; an index outside the array raises IndexError.\<close>

definition get3 :: "arr3 \<Rightarrow> nat \<times> nat \<times> nat \<Rightarrow> py_error + int" where
  "get3 a pos =
     (case pos of (x, y, z) \<Rightarrow>
        if x < length a \<and> y < length (a ! x) \<and> z < length (a ! x ! y)
        then Inr (a ! x ! y ! z) else Inl IndexError)"

definition set3 :: "arr3 \<Rightarrow> nat \<times> nat \<times> nat \<Rightarrow> int \<Rightarrow> py_error + arr3" where
  "set3 a pos v =
     (case pos of (x, y, z) \<Rightarrow>
        if x < length a \<and> y < length (a ! x) \<and> z < length (a ! x ! y)
        then Inr (a[x := (a ! x)[y := (a ! x ! y)[z := v]]]) else Inl IndexError)"

text \<open>
  \<^verbatim>\<open>xs[start:stop]\<close> for bounds that are not negative: the slice is clipped to the
  list and is empty when \<open>stop \<le> start\<close>.
\<close>

definition py_slice :: "nat \<Rightarrow> nat \<Rightarrow> 'a list \<Rightarrow> 'a list" where
  "py_slice start stop xs = take (stop - start) (drop start xs)"

definition slice3 :: "arr3 \<Rightarrow> nat \<times> nat \<Rightarrow> nat \<times> nat \<Rightarrow> nat \<times> nat \<Rightarrow> arr3" where
  "slice3 a xr yr zr =
     map (\<lambda>plane. map (\<lambda>row. py_slice (fst zr) (snd zr) row) (py_slice (fst yr) (snd yr) plane))
         (py_slice (fst xr) (snd xr) a)"

definition flatten3 :: "arr3 \<Rightarrow> int list" where
  "flatten3 a = concat (concat a)"

text \<open>A \<^verbatim>\<open>for\<close> loop whose body may raise: the first error ends the loop.\<close>

fun for_each :: "('p \<Rightarrow> 's \<Rightarrow> py_error + 's) \<Rightarrow> 'p list \<Rightarrow> 's \<Rightarrow> py_error + 's" where
  "for_each body [] s = Inr s"
| "for_each body (p # ps) s =
     (case body p s of Inl e \<Rightarrow> Inl e | Inr s' \<Rightarrow> for_each body ps s')"

text \<open>
  The body of the triple loop of \<^verbatim>\<open>process_block\<close>. The window is
  \<^verbatim>\<open>arr[x - offset[0]: x + offset[0] + 1, y - offset[1]: y + offset[1], z - offset[2]: z + offset[2]]\<close>:
  only the first axis has the \<open>+ 1\<close>.
\<close>

definition process_block_body ::
  "arr3 \<Rightarrow> arr3 \<Rightarrow> nat \<times> nat \<times> nat \<Rightarrow> nat \<times> nat \<times> nat \<Rightarrow> arr3 \<Rightarrow> py_error + arr3" where
  "process_block_body edges arr offset pos out =
     (case (offset, pos) of ((ox, oy, oz), (x, y, z)) \<Rightarrow>
        (case get3 edges pos of
           Inl e \<Rightarrow> Inl e
         | Inr edge \<Rightarrow>
             if edge = 0 then Inr out
             else (case get3 arr pos of
                     Inl e \<Rightarrow> Inl e
                   | Inr center_id \<Rightarrow>
                       (let chunk = slice3 arr (x - ox, x + ox + 1) (y - oy, y + oy) (z - oz, z + oz)
                        in case kernel (flatten3 chunk) center_id of
                             Inl e \<Rightarrow> Inl e
                           | Inr key \<Rightarrow> set3 out pos key))))"

text \<open>
  \<^verbatim>\<open>offset = stencil / 2\<close> is the integer division of Python 2 on an integer array,
  the reading under which the loop bounds are integers.
\<close>

definition process_block :: "arr3 \<Rightarrow> arr3 \<Rightarrow> nat \<times> nat \<times> nat \<Rightarrow> py_error + arr3" where
  "process_block edges arr stencil =
     (case stencil of (s0, s1, s2) \<Rightarrow>
        if s0 mod 2 + s1 mod 2 + s2 mod 2 \<noteq> 3 then Inl AssertionError
        else
          (let out = zeros3 (shape3 arr);
               offset = (s0 div 2, s1 div 2, s2 div 2)
           in case (offset, shape3 arr) of ((ox, oy, oz), (nx, ny, nz)) \<Rightarrow>
                for_each (process_block_body edges arr offset)
                  (concat (map (\<lambda>x. concat (map (\<lambda>y. map (\<lambda>z. (x, y, z)) [oz ..< nz - oz])
                                                  [oy ..< ny - oy]))
                               [ox ..< nx - ox]))
                  out))"

text \<open>
  \<^verbatim>\<open>edges[offset: -offset]\<close>: with offset 0 the stop is \<open>-0 = 0\<close> and the slice is
  empty.
\<close>

definition slice_inner :: "nat \<Rightarrow> 'a list \<Rightarrow> 'a list" where
  "slice_inner off xs = (if off = 0 then [] else py_slice off (length xs - off) xs)"

text \<open>\<^verbatim>\<open>np.nonzero\<close>: the positions of the entries that are not 0, in row-major order.\<close>

definition np_nonzero :: "arr3 \<Rightarrow> (nat \<times> nat \<times> nat) list" where
  "np_nonzero a =
     concat (map (\<lambda>x. concat (map (\<lambda>y. concat (map (\<lambda>z. if a ! x ! y ! z \<noteq> 0 then [(x, y, z)] else [])
                                                    [0 ..< length (a ! x ! y)]))
                                    [0 ..< length (a ! x)]))
                 [0 ..< length a])"

definition process_block_nonzero_body ::
  "arr3 \<Rightarrow> nat \<times> nat \<times> nat \<Rightarrow> nat \<times> nat \<times> nat \<Rightarrow> nat \<times> nat \<times> nat \<Rightarrow> arr3 \<Rightarrow> py_error + arr3" where
  "process_block_nonzero_body arr stencil offset pos out =
     (case (stencil, offset, pos) of ((s0, s1, s2), (ox, oy, oz), (x, y, z)) \<Rightarrow>
        (case get3 arr (x + ox, y + oy, z + oz) of
           Inl e \<Rightarrow> Inl e
         | Inr center_id \<Rightarrow>
             (let chunk = slice3 arr (x, x + s0) (y, y + s1) (z, z + s2)
              in case kernel (flatten3 chunk) center_id of
                   Inl e \<Rightarrow> Inl e
                 | Inr key \<Rightarrow> set3 out pos key)))"

text \<open>
  \<^verbatim>\<open>np.zeros(arr_shape - stencil + 1)\<close> raises ValueError when a dimension is
  negative.
\<close>

definition process_block_nonzero :: "arr3 \<Rightarrow> arr3 \<Rightarrow> nat \<times> nat \<times> nat \<Rightarrow> py_error + arr3" where
  "process_block_nonzero edges arr stencil =
     (case stencil of (s0, s1, s2) \<Rightarrow>
        if s0 mod 2 + s1 mod 2 + s2 mod 2 \<noteq> 3 then Inl AssertionError
        else
          (case shape3 arr of (nx, ny, nz) \<Rightarrow>
             if nx + 1 < s0 \<or> ny + 1 < s1 \<or> nz + 1 < s2 then Inl ValueError
             else
               (let out = zeros3 (nx + 1 - s0, ny + 1 - s1, nz + 1 - s2);
                    offset = (s0 div 2, s1 div 2, s2 div 2)
                in case offset of (ox, oy, oz) \<Rightarrow>
                     (let nze = np_nonzero
                            (map (\<lambda>plane. map (slice_inner oz) (slice_inner oy plane))
                                 (slice_inner ox edges))
                      in for_each (process_block_nonzero_body arr stencil offset) nze out))))"

text \<open>
  A block of exactly one default stencil (7, 7, 3): the centre voxel (3, 3, 1) carries
  id 1 and is flagged as an edge, the voxel (3, 6, 1) in the last row of the window
  carries id 2, everything else is background.
\<close>

definition stencil_block_arr :: arr3 where
  "stencil_block_arr =
     (zeros3 (7, 7, 3))[3 := (zeros3 (7, 7, 3) ! 3)[3 := [0, 1, 0], 6 := [0, 2, 0]]]"

definition stencil_block_edges :: arr3 where
  "stencil_block_edges = (zeros3 (7, 7, 3))[3 := (zeros3 (7, 7, 3) ! 3)[3 := [0, 1, 0]]]"

section \<open>Object extraction (syconn\_deprecated/processing/objectextraction.py)\<close>

text \<open>
  Thresholds and sigmas are floats; they are modelled as reals. The operations the
  properties below depend on (comparison with 1, maximum, multiplication by 4, ceiling,
  adding 1) are exact on floats of ordinary magnitude. The count arrays have dtype
  \<^verbatim>\<open>np.int32\<close>: 32-bit words read as two's complement by \<open>sint\<close>.

  An entry of \<^verbatim>\<open>cc_info_list\<close> is \<open>(chunk id, hdf5 name, number of components)\<close>.
\<close>

type_synonym int32 = "32 word"

type_synonym cc_info = "nat \<times> string \<times> int"

datatype overlap_arg = Auto | Given "real list"

subsection \<open>gauss\_threshold\_connected\_components\<close>

definition np_max_real :: "real list \<Rightarrow> py_error + real" where
  "np_max_real xs = (case xs of [] \<Rightarrow> Inl ValueError | x # rest \<Rightarrow> Inr (fold max rest x))"

text \<open>
  \<open>sigmas\<close> holds one list of sigmas per channel (a scalar sigma is a list of one
  entry; \<^verbatim>\<open>np.zeros(len(hdf5names))\<close> is one 0 per channel). The chunk dataset has
  the chunks \<open>0, \<dots>, n_chunks - 1\<close>: building the job parameters iterates over
  \<^verbatim>\<open>chunk_list\<close> and looks every chunk up in \<^verbatim>\<open>cset.chunk_dict\<close>. \<open>results\<close> is
  what the job runner hands back: one list of entries per worker result, or per output
  file that \<^verbatim>\<open>glob\<close> finds. \<open>use_qsub\<close> says that \<^verbatim>\<open>qsub_pe\<close> or
  \<^verbatim>\<open>qsub_queue\<close> is set.
\<close>

definition gauss_threshold_connected_components ::
  "string list \<Rightarrow> overlap_arg \<Rightarrow> real list list option \<Rightarrow> real list option \<Rightarrow>
   nat list option \<Rightarrow> nat \<Rightarrow> bool \<Rightarrow> bool \<Rightarrow> cc_info list list \<Rightarrow>
   py_error + cc_info list \<times> real list \<times> real list" where
  "gauss_threshold_connected_components hdf5names overlap sigmas thresholds chunk_list n_chunks
       use_qsub qsub_available results =
     (let thresholds = (case thresholds of None \<Rightarrow> replicate (length hdf5names) 0 | Some ts \<Rightarrow> ts);
          sigmas = (case sigmas of None \<Rightarrow> replicate (length hdf5names) [0] | Some ss \<Rightarrow> ss)
      in if \<not> (length sigmas = length thresholds \<and> length thresholds = length hdf5names)
         then Inl (Exception ''Number of thresholds, sigmas and HDF5 names does not match!'')
         else
           (let stitch_overlap = [1, 1, 1]
            in case (case overlap of
                       Auto \<Rightarrow>
                         (case np_max_real (concat sigmas) of
                            Inl e \<Rightarrow> Inl e
                          | Inr m \<Rightarrow>
                              (let max_sigma = replicate 3 m
                               in Inr (map (\<lambda>(s, t). of_int \<lceil>s * 4\<rceil> + t)
                                         (zip max_sigma stitch_overlap))))
                     | Given ov \<Rightarrow> Inr ov) of
                 Inl e \<Rightarrow> Inl e
               | Inr overlap \<Rightarrow>
                   (case chunk_list of
                      None \<Rightarrow> Inl TypeError
                    | Some cl \<Rightarrow>
                        if \<not> list_all (\<lambda>nb_chunk. nb_chunk < n_chunks) cl then Inl KeyError
                        else if use_qsub \<and> \<not> qsub_available
                        then Inl (Exception ''QSUB not available'')
                        else Inr (concat results, overlap, stitch_overlap))))"

subsection \<open>from\_probabilities\_to\_objects, up to the maximal labels\<close>

text \<open>
  \<^verbatim>\<open>if thresholds is not None and thresholds[0] <= 1.: thresholds *= 255\<close>
\<close>

definition scale_thresholds :: "real list option \<Rightarrow> py_error + real list option" where
  "scale_thresholds thresholds =
     (case thresholds of
        None \<Rightarrow> Inr None
      | Some ts \<Rightarrow>
          (case ts of
             [] \<Rightarrow> Inl IndexError
           | t0 # _ \<Rightarrow> if t0 \<le> 1 then Inr (Some (map (\<lambda>t. t * 255) ts)) else Inr (Some ts)))"

text \<open>
  The chunk list and the translator from chunk id to position; \<open>n_chunks\<close> is
  \<^verbatim>\<open>len(cset.chunk_dict)\<close>. The function is modelled for a call without
  \<^verbatim>\<open>offset\<close>, \<^verbatim>\<open>size\<close> and \<^verbatim>\<open>prob_kd_path_dict\<close> and with \<^verbatim>\<open>swapdata\<close> 0.
\<close>

definition make_chunk_translator :: "nat list option \<Rightarrow> nat \<Rightarrow> nat list \<times> (nat \<rightharpoonup> nat)" where
  "make_chunk_translator chunk_list n_chunks =
     (case chunk_list of
        None \<Rightarrow> ([0 ..< n_chunks], fold (\<lambda>ii tr. tr(ii \<mapsto> ii)) [0 ..< n_chunks] Map.empty)
      | Some cl \<Rightarrow> (cl, fold (\<lambda>ii tr. tr(cl ! ii \<mapsto> ii)) [0 ..< length cl] Map.empty))"

text \<open>
  \<^verbatim>\<open>nb_cc_dict[cc_info[1]][chunk_translator[cc_info[0]]] = cc_info[2]\<close>
\<close>

definition store_count ::
  "(nat \<rightharpoonup> nat) \<Rightarrow> cc_info \<Rightarrow> (string \<rightharpoonup> int32 list) \<Rightarrow> py_error + (string \<rightharpoonup> int32 list)" where
  "store_count chunk_translator cc_info nb_cc_dict =
     (case cc_info of (chunk_id, hdf5_name, nb_cc) \<Rightarrow>
        (case nb_cc_dict hdf5_name of
           None \<Rightarrow> Inl KeyError
         | Some counts \<Rightarrow>
             (case chunk_translator chunk_id of
                None \<Rightarrow> Inl KeyError
              | Some i \<Rightarrow>
                  if i < length counts
                  then Inr (nb_cc_dict(hdf5_name \<mapsto> counts[i := word_of_int nb_cc]))
                  else Inl IndexError)))"

text \<open>
  The allocation loop for one name: \<^verbatim>\<open>max_nb[0] = 0\<close>, then
  \<^verbatim>\<open>max_nb[k] = max_nb[k - 1] + nb_cc[k - 1]\<close> for \<open>k\<close> from 1 below
  \<^verbatim>\<open>len(chunk_list)\<close>, on the array that \<^verbatim>\<open>max_nb_dict\<close> holds.
\<close>

definition prefix_bases :: "nat \<Rightarrow> int32 list \<Rightarrow> int32 list \<Rightarrow> py_error + int32 list" where
  "prefix_bases n nb_cc max_nb =
     (if max_nb = [] then Inl IndexError
      else Inr (fold (\<lambda>nb_chunk max_nb.
                        max_nb[nb_chunk := max_nb ! (nb_chunk - 1) + nb_cc ! (nb_chunk - 1)])
                     [1 ..< n] (max_nb[0 := 0])))"

type_synonym alloc_state = "(string \<rightharpoonup> int32 list) \<times> (string \<rightharpoonup> int)"

definition allocate_name ::
  "nat \<Rightarrow> (string \<rightharpoonup> int32 list) \<Rightarrow> string \<Rightarrow> alloc_state \<Rightarrow> py_error + alloc_state" where
  "allocate_name n nb_cc_dict hdf5_name st =
     (case st of (max_nb_dict, max_labels) \<Rightarrow>
        (case (nb_cc_dict hdf5_name, max_nb_dict hdf5_name) of
           (Some nb_cc, Some max_nb) \<Rightarrow>
             (case prefix_bases n nb_cc max_nb of
                Inl e \<Rightarrow> Inl e
              | Inr max_nb \<Rightarrow>
                  Inr (max_nb_dict(hdf5_name \<mapsto> max_nb),
                       max_labels(hdf5_name \<mapsto> sint (last max_nb + last nb_cc))))
         | _ \<Rightarrow> Inl KeyError))"

record extraction =
  thresholds_used :: "real list option"
  overlap_used :: "real list"
  stitch_overlap_used :: "real list"
  chunk_list_used :: "nat list"
  nb_cc_dict :: "string \<rightharpoonup> int32 list"
  max_nb_dict :: "string \<rightharpoonup> int32 list"
  max_labels :: "string \<rightharpoonup> int"

definition zero_counts :: "string list \<Rightarrow> nat \<Rightarrow> (string \<rightharpoonup> int32 list)" where
  "zero_counts hdf5names n =
     fold (\<lambda>hdf5_name d. d(hdf5_name \<mapsto> replicate n 0)) hdf5names Map.empty"

definition from_probabilities_to_objects ::
  "string list \<Rightarrow> overlap_arg \<Rightarrow> real list list option \<Rightarrow> real list option \<Rightarrow>
   nat list option \<Rightarrow> nat \<Rightarrow> bool \<Rightarrow> bool \<Rightarrow> cc_info list list \<Rightarrow> py_error + extraction" where
  "from_probabilities_to_objects hdf5names overlap sigmas thresholds chunk_list n_chunks
       use_qsub qsub_available results =
     (case make_chunk_translator chunk_list n_chunks of (chunk_list, chunk_translator) \<Rightarrow>
      case scale_thresholds thresholds of
        Inl e \<Rightarrow> Inl e
      | Inr thresholds \<Rightarrow>
     (case gauss_threshold_connected_components hdf5names overlap sigmas thresholds
             (Some chunk_list) n_chunks use_qsub qsub_available results of
        Inl e \<Rightarrow> Inl e
      | Inr (cc_info_list, overlap, stitch_overlap) \<Rightarrow>
          (case for_each (store_count chunk_translator) cc_info_list
                  (zero_counts hdf5names (length chunk_list)) of
             Inl e \<Rightarrow> Inl e
           | Inr nb_cc \<Rightarrow>
               (case for_each (allocate_name (length chunk_list) nb_cc) hdf5names
                       (zero_counts hdf5names (length chunk_list), Map.empty) of
                  Inl e \<Rightarrow> Inl e
                | Inr (max_nb, labels) \<Rightarrow>
                    Inr \<lparr>thresholds_used = thresholds, overlap_used = overlap,
                         stitch_overlap_used = stitch_overlap, chunk_list_used = chunk_list,
                         nb_cc_dict = nb_cc, max_nb_dict = max_nb, max_labels = labels\<rparr>))))"

subsection \<open>The allocation as a prefix sum\<close>

text \<open>
  The exclusive prefix sum of the counts, in int32 arithmetic: entry \<open>i\<close> is the sum of
  the counts of the chunks before position \<open>i\<close>.
\<close>

definition exclusive_prefix_sum :: "int32 list \<Rightarrow> int32 list" where
  "exclusive_prefix_sum counts = map (\<lambda>i. sum_list (take i counts)) [0 ..< length counts]"

text \<open>
  A table with exactly one array of \<open>n\<close> entries for every name of \<open>hdf5names\<close>, as
  \<^verbatim>\<open>nb_cc_dict\<close> and \<^verbatim>\<open>max_nb_dict\<close> are from their initialisation on.
\<close>

definition well_shaped :: "string list \<Rightarrow> nat \<Rightarrow> (string \<rightharpoonup> int32 list) \<Rightarrow> bool" where
  "well_shaped hdf5names n d =
     (\<forall>name. if name \<in> set hdf5names then (\<exists>a. d name = Some a \<and> length a = n)
             else d name = None)"

section \<open>Mapping decisions (syconn/proc/ssd\_proc.py)\<close>






section \<open>Merge list (make\_merge\_list)\<close>

text \<open>
  A stitch list is a list of pairs of global ids. \<^verbatim>\<open>nx.from_edgelist\<close> builds the
  undirected graph whose nodes are the ids that occur in a pair, and
  \<^verbatim>\<open>nx.connected_components\<close> yields the node sets of its connected components. The
  model computes them by merging, edge by edge, the components an edge touches; each
  component is a list without repetitions.
\<close>

type_synonym edge = "nat \<times> nat"

definition touches :: "edge \<Rightarrow> nat list \<Rightarrow> bool" where
  "touches e c = (fst e \<in> set c \<or> snd e \<in> set c)"

definition add_edge :: "edge \<Rightarrow> nat list list \<Rightarrow> nat list list" where
  "add_edge e cs =
     remdups (concat (filter (touches e) cs) @ [fst e, snd e])
       # filter (\<lambda>c. \<not> touches e c) cs"

definition connected_components :: "edge list \<Rightarrow> nat list list" where
  "connected_components es = foldr add_edge es []"

text \<open>The ids that occur in the stitch list, and the pairs of ids joined by a path.\<close>

definition nodes :: "edge list \<Rightarrow> nat set" where
  "nodes es = fst ` set es \<union> snd ` set es"

definition connected :: "edge list \<Rightarrow> (nat \<times> nat) set" where
  "connected es = (set es \<union> (set es)\<inverse>)\<^sup>*"

text \<open>
  \<^verbatim>\<open>this_cc = list(this_cc)\<close> lists the members of a component in the iteration order
  of a Python set, which the language leaves open. The order is the parameter \<open>enum\<close>:
  it is handed the component and returns its members in the order of the list.

  \<^verbatim>\<open>for id in this_cc: merge_dict[id] = this_cc[0]; merge_list[id] = this_cc[0]\<close>,
  where the merge list is a numpy array: an id beyond its end raises IndexError.
\<close>

type_synonym merge_state = "(nat \<rightharpoonup> nat) \<times> nat list"

definition assign_id :: "nat \<Rightarrow> nat \<Rightarrow> merge_state \<Rightarrow> py_error + merge_state" where
  "assign_id first ident st =
     (case st of (merge_dict, merge_list) \<Rightarrow>
        if ident < length merge_list
        then Inr (merge_dict(ident \<mapsto> first), merge_list[ident := first])
        else Inl IndexError)"

definition merge_component ::
  "(nat list \<Rightarrow> nat list) \<Rightarrow> nat list \<Rightarrow> merge_state \<Rightarrow> py_error + merge_state" where
  "merge_component enum c st =
     (let this_cc = enum c
      in case this_cc of
           [] \<Rightarrow> Inr st
         | first # _ \<Rightarrow> for_each (assign_id first) this_cc st)"

text \<open>The body of the loop over \<^verbatim>\<open>hdf5names\<close>, for the stitch list of one name.\<close>

definition merge_stitch_list ::
  "(nat list \<Rightarrow> nat list) \<Rightarrow> edge list \<Rightarrow> nat \<Rightarrow> py_error + merge_state" where
  "merge_stitch_list enum this_stitch_list max_label =
     (let cc = connected_components this_stitch_list
      in for_each (merge_component enum) cc (Map.empty, [0 ..< max_label + 1]))"

type_synonym merge_tables = "(string \<rightharpoonup> (nat \<rightharpoonup> nat)) \<times> (string \<rightharpoonup> nat list)"

definition merge_name ::
  "(nat list \<Rightarrow> nat list) \<Rightarrow> (string \<rightharpoonup> edge list) \<Rightarrow> (string \<rightharpoonup> nat) \<Rightarrow>
   string \<Rightarrow> merge_tables \<Rightarrow> py_error + merge_tables" where
  "merge_name enum stitch_list max_labels' hdf5_name tables =
     (case tables of (merge_dict, merge_list_dict) \<Rightarrow>
        (case stitch_list hdf5_name of
           None \<Rightarrow> Inl KeyError
         | Some this_stitch_list \<Rightarrow>
             (case max_labels' hdf5_name of
                None \<Rightarrow> Inl KeyError
              | Some max_label \<Rightarrow>
                  (case merge_stitch_list enum this_stitch_list max_label of
                     Inl e \<Rightarrow> Inl e
                   | Inr (md, ml) \<Rightarrow>
                       Inr (merge_dict(hdf5_name \<mapsto> md), merge_list_dict(hdf5_name \<mapsto> ml))))))"

definition make_merge_list ::
  "(nat list \<Rightarrow> nat list) \<Rightarrow> string list \<Rightarrow> (string \<rightharpoonup> edge list) \<Rightarrow> (string \<rightharpoonup> nat) \<Rightarrow>
   py_error + merge_tables" where
  "make_merge_list enum hdf5names stitch_list max_labels' =
     for_each (merge_name enum stitch_list max_labels') hdf5names (Map.empty, Map.empty)"

text \<open>
  An iteration order of small sets: CPython keeps a set of up to four small integers in
  a table of eight slots, an integer \<open>i\<close> in slot \<open>i mod 8\<close> when that slot is free,
  and lists the slots in order. \<^verbatim>\<open>list({1, 8})\<close> is \<^verbatim>\<open>[8, 1]\<close>.
\<close>

definition slot_order :: "nat list \<Rightarrow> nat list" where
  "slot_order c = sort_key (\<lambda>i. i mod 8) c"

text \<open>
  What it means for a list of components to be the connected components of the graph
  of a stitch list: the components are non-empty, without repetitions and pairwise
  disjoint, they cover exactly the nodes, the members of one component are joined by
  paths, and the two ends of every edge lie in one component.
\<close>

definition partition_of :: "edge list \<Rightarrow> nat list list \<Rightarrow> bool" where
  "partition_of es cs \<longleftrightarrow>
     distinct (concat cs) \<and> [] \<notin> set cs \<and> set (concat cs) = nodes es
   \<and> (\<forall>c\<in>set cs. \<forall>x\<in>set c. \<forall>y\<in>set c. (x, y) \<in> connected es)
   \<and> (\<forall>e\<in>set es. \<exists>c\<in>set cs. fst e \<in> set c \<and> snd e \<in> set c)"

text \<open>
  The id that the merge loop gives to \<open>x\<close>: the first member, in iteration order, of the
  component that holds \<open>x\<close>; none when no component holds it.
\<close>

definition representative :: "(nat list \<Rightarrow> nat list) \<Rightarrow> nat list list \<Rightarrow> nat \<Rightarrow> nat option" where
  "representative enum cs x = map_option (\<lambda>c. hd (enum c)) (find (\<lambda>c. x \<in> set c) cs)"

definition canonical_id :: "(nat list \<Rightarrow> nat list) \<Rightarrow> edge list \<Rightarrow> nat \<Rightarrow> nat" where
  "canonical_id enum es x =
     (case representative enum (connected_components es) x of None \<Rightarrow> x | Some r \<Rightarrow> r)"

text \<open>
  The iteration order that CPython and networkx give to a component, for graphs whose
  sets stay within the initial table of eight slots (at most four entries, so that no
  table is resized), as in the examples below.

  A CPython set lists its table slot by slot. An integer \<open>key\<close> is its own hash; it is
  put into the first free slot of the probe sequence that starts at \<open>key mod 8\<close> with
  \<open>perturb = key\<close> and goes on with \<open>perturb >>= 5; i = (i * 5 + 1 + perturb) mod 8\<close>.
  \<^verbatim>\<open>table_order\<close> is the listing of a set after its members were added in the given
  order: 8, 16, 24 is listed as 8, 16, 24, and 16, 24, 8 as 16, 24, 8.
\<close>

fun probe_slot :: "nat \<Rightarrow> nat option list \<Rightarrow> nat \<Rightarrow> nat \<Rightarrow> nat option" where
  "probe_slot 0 table i perturb = None"
| "probe_slot (Suc fuel) table i perturb =
     (if table ! i = None then Some i
      else probe_slot fuel table ((i * 5 + 1 + perturb div 32) mod 8) (perturb div 32))"

definition table_add :: "nat \<Rightarrow> nat option list \<Rightarrow> nat option list" where
  "table_add key table =
     (case probe_slot (key + 9) table (key mod 8) key of
        None \<Rightarrow> table
      | Some i \<Rightarrow> table[i := Some key])"

definition table_order :: "nat list \<Rightarrow> nat list" where
  "table_order inserted = List.map_filter id (fold table_add inserted (replicate 8 None))"

text \<open>
  The graph of \<^verbatim>\<open>nx.from_edgelist\<close> keeps its nodes, and the neighbours of each
  node, in the order in which the edges first mention them.
\<close>

definition insert_new :: "nat \<Rightarrow> nat list \<Rightarrow> nat list" where
  "insert_new x xs = (if x \<in> set xs then xs else xs @ [x])"

definition first_occurrences :: "nat list \<Rightarrow> nat list" where
  "first_occurrences xs = fold insert_new xs []"

definition node_order :: "edge list \<Rightarrow> nat list" where
  "node_order es = first_occurrences (concat (map (\<lambda>(u, v). [u, v]) es))"

definition neighbours :: "edge list \<Rightarrow> nat \<Rightarrow> nat list" where
  "neighbours es v =
     first_occurrences
       (concat (map (\<lambda>(u, w). (if u = v then [w] else []) @ (if w = v then [u] else [])) es))"

text \<open>
  The breadth-first search of \<^verbatim>\<open>nx.connected_components\<close>: level by level, every node
  of the level that is not seen yet is added to the set \<open>seen\<close> and its neighbours are
  added to the set of the next level; the level is traversed in the iteration order of
  its set. \<open>seen\<close> and \<open>nextlevel\<close> hold the members of the two sets in the order in
  which they were added. There are no more levels than nodes, which bounds the fuel.
\<close>

fun bfs_level :: "edge list \<Rightarrow> nat list \<Rightarrow> nat list \<Rightarrow> nat list \<Rightarrow> nat list \<times> nat list" where
  "bfs_level es [] seen nextlevel = (seen, nextlevel)"
| "bfs_level es (v # thislevel) seen nextlevel =
     (if v \<in> set seen then bfs_level es thislevel seen nextlevel
      else bfs_level es thislevel (seen @ [v]) (fold insert_new (neighbours es v) nextlevel))"

fun plain_bfs :: "nat \<Rightarrow> edge list \<Rightarrow> nat list \<Rightarrow> nat list \<Rightarrow> nat list" where
  "plain_bfs 0 es nextlevel seen = seen"
| "plain_bfs (Suc fuel) es nextlevel seen =
     (if nextlevel = [] then seen
      else (case bfs_level es (table_order nextlevel) seen [] of
              (seen', nextlevel') \<Rightarrow> plain_bfs fuel es nextlevel' seen'))"

text \<open>
  \<^verbatim>\<open>list(this_cc)\<close> for the component \<open>c\<close> of the graph of the stitch list \<open>es\<close>: the
  search starts at the first node of the component in node order, and the set it
  returns is listed slot by slot. Where that listing does not hold exactly the members
  of \<open>c\<close> (a set that outgrew the eight slots), the members are listed as they are
  handed over.
\<close>

definition cpython_order :: "edge list \<Rightarrow> nat list \<Rightarrow> nat list" where
  "cpython_order es c =
     (case filter (\<lambda>v. v \<in> set c) (node_order es) of
        [] \<Rightarrow> c
      | source # _ \<Rightarrow>
          (let seen = plain_bfs (Suc (length (node_order es))) es [source] [];
               listed = table_order seen
           in if set listed = set c then listed else c))"

section \<open>Properties of kernel\<close>













section \<open>process\_block against process\_block\_nonzero\<close>

text \<open>
  Claim C6 says that process\_block inspects the full stencil window around each flagged
  voxel, so that its output at \<open>(x, y, z)\<close> equals the output of process\_block\_nonzero
  at \<open>(x, y, z) - offset\<close>. On the one-stencil block with default stencil (7, 7, 3)
  both functions compute the centre voxel: process\_block leaves the key 0 there, because
  its window stops one row and one slice short and misses id 2, while
  process\_block\_nonzero writes the key of the pair (1, 2).
\<close>

theorem process_block_window_short:
  "process_block stencil_block_edges stencil_block_arr (7, 7, 3) = Inr (zeros3 (7, 7, 3))
   \<and> get3 (zeros3 (7, 7, 3)) (3, 3, 1) = Inr 0
   \<and> process_block_nonzero stencil_block_edges stencil_block_arr (7, 7, 3)
       = Inr [[[push_bit 32 1 + 2]]]
   \<and> get3 [[[push_bit 32 1 + 2]]] (3 - 7 div 2, 3 - 7 div 2, 1 - 3 div 2) = Inr 4294967298"
  by code_simp

section \<open>Overlap and thresholds\<close>

lemma np_max_real_Max: "xs \<noteq> [] \<Longrightarrow> np_max_real xs = Inr (Max (set xs))"
  by (cases xs) (simp_all add: np_max_real_def Max.set_eq_fold [symmetric] del: set_simps)

lemma np_max_real_Inr: "np_max_real xs = Inr m \<Longrightarrow> xs \<noteq> [] \<and> m = Max (set xs)"
  by (cases xs) (simp_all add: np_max_real_def Max.set_eq_fold [symmetric] del: set_simps)

text \<open>
  Claim C7: with overlap \<^verbatim>\<open>"auto"\<close>, whenever gauss\_threshold\_connected\_components
  returns, the stitch overlap is (1, 1, 1) and the overlap of every axis is
  \<open>ceil(4 * max(sigmas)) + 1\<close>, the maximum taken over all channels and axes (over one
  0 per channel when no sigmas are given).
\<close>

theorem auto_overlap_from_max_sigma:
  "gauss_threshold_connected_components hdf5names Auto sigmas thresholds chunk_list n_chunks
       use_qsub qsub_available results = Inr (cc_info_list, overlap, stitch_overlap) \<Longrightarrow>
   stitch_overlap = [1, 1, 1]
   \<and> overlap = replicate 3
        (of_int \<lceil>4 * Max (set (concat (case sigmas of
                                         None \<Rightarrow> replicate (length hdf5names) [0]
                                       | Some ss \<Rightarrow> ss)))\<rceil> + 1)"
  unfolding gauss_threshold_connected_components_def Let_def
  by (auto split: if_splits sum.splits option.splits dest!: np_max_real_Inr
           simp: numeral_3_eq_3 mult.commute)

theorem auto_overlap_from_max_sigma_witness:
  "gauss_threshold_connected_components [''sj'', ''vc''] Auto (Some [[1.2, 1.2, 0.5], [2.3, 0.1, 0.1]])
       (Some [0.5, 0.4]) (Some [0]) 1 False False [[(0, ''sj'', 3)]]
     = Inr ([(0, ''sj'', 3)], [11, 11, 11], [1, 1, 1])
   \<and> [11, 11, 11] = replicate 3 (of_int \<lceil>4 * Max (set (concat [[1.2, 1.2, 0.5], [2.3, 0.1, 0.1 :: real]]))\<rceil> + 1 :: real)"
proof -
  have ev: "gauss_threshold_connected_components [''sj'', ''vc''] Auto
       (Some [[1.2, 1.2, 0.5], [2.3, 0.1, 0.1]]) (Some [0.5, 0.4]) (Some [0]) 1 False False
       [[(0, ''sj'', 3)]]
     = Inr ([(0, ''sj'', 3)], [11, 11, 11], [1, 1, 1])"
    by (simp add: gauss_threshold_connected_components_def np_max_real_def numeral_3_eq_3)
  show ?thesis using ev auto_overlap_from_max_sigma [OF ev] by simp
qed

text \<open>
  Claim C10: when from\_probabilities\_to\_objects is given thresholds and gets as far as
  the maximal labels, the thresholds handed to the extraction are all multiplied by 255
  if the first one is at most 1, whatever the others are, and are unchanged if the first
  one exceeds 1.
\<close>

theorem thresholds_scaled_by_first:
  "from_probabilities_to_objects hdf5names overlap sigmas (Some thresholds) chunk_list n_chunks
       use_qsub qsub_available results = Inr e \<Longrightarrow>
   thresholds \<noteq> []
   \<and> (hd thresholds \<le> 1 \<longrightarrow> thresholds_used e = Some (map (\<lambda>t. t * 255) thresholds))
   \<and> (1 < hd thresholds \<longrightarrow> thresholds_used e = Some thresholds)"
  unfolding from_probabilities_to_objects_def scale_thresholds_def
  by (auto split: prod.splits sum.splits list.splits if_splits)

theorem thresholds_scaled_by_first_witness:
  "map_sum id thresholds_used
     (from_probabilities_to_objects [''sj'', ''vc''] Auto None (Some [0.5, 2]) (Some [0, 1]) 2
        False False [[(0, ''sj'', 3)], [(1, ''vc'', 4)]])
     = Inr (Some [127.5, 510])"
proof -
  let ?run = "from_probabilities_to_objects [''sj'', ''vc''] Auto None (Some [0.5, 2]) (Some [0, 1]) 2
        False False [[(0, ''sj'', 3)], [(1, ''vc'', 4)]]"
  have "\<not> isl ?run" by code_simp
  then obtain e where ev: "?run = Inr e" by (cases ?run) auto
  have "hd [0.5, 2 :: real] \<le> 1" by simp
  with thresholds_scaled_by_first [OF ev]
  have "thresholds_used e = Some (map (\<lambda>t. t * 255) [0.5, 2])" by blast
  then show ?thesis unfolding ev by simp
qed

section \<open>Background correction of the mapping ratios\<close>



section \<open>Global id allocation\<close>

subsection \<open>The count tables\<close>

lemma for_each_append:
  "for_each body (xs @ ys) s =
     (case for_each body xs s of Inl e \<Rightarrow> Inl e | Inr s' \<Rightarrow> for_each body ys s')"
  by (induction xs arbitrary: s) (simp_all split: sum.splits)

lemma fold_upd_const:
  "fold (\<lambda>h d. d(h \<mapsto> z)) names m name = (if name \<in> set names then Some z else m name)"
  by (induction names arbitrary: m) auto

lemma zero_counts_apply:
  "zero_counts names n name = (if name \<in> set names then Some (replicate n 0) else None)"
  by (simp add: zero_counts_def fold_upd_const)

lemma well_shaped_zero_counts: "well_shaped names n (zero_counts names n)"
  by (simp add: well_shaped_def zero_counts_apply)

lemma store_count_well_shaped:
  "store_count tr info d = Inr d' \<Longrightarrow> well_shaped names n d \<Longrightarrow> well_shaped names n d'"
  unfolding store_count_def well_shaped_def
  by (auto split: prod.splits option.splits if_splits) (metis length_list_update option.inject option.distinct(1))+

lemma for_each_store_well_shaped:
  "for_each (store_count tr) infos d = Inr d' \<Longrightarrow> well_shaped names n d \<Longrightarrow>
   well_shaped names n d'"
proof (induction infos arbitrary: d)
  case Nil
  then show ?case by simp
next
  case (Cons info infos)
  then show ?case
    by (auto split: sum.splits dest: store_count_well_shaped)
qed

subsection \<open>The allocation loop\<close>

lemma prefix_fold:
  assumes "length a = n" and "length nb = n" and "1 \<le> k" and "k \<le> n"
  shows "length (fold (\<lambda>nb_chunk max_nb.
                   max_nb[nb_chunk := max_nb ! (nb_chunk - 1) + nb ! (nb_chunk - 1)])
                [1 ..< k] (a[0 := 0])) = n
       \<and> (\<forall>i<k. fold (\<lambda>nb_chunk max_nb.
                   max_nb[nb_chunk := max_nb ! (nb_chunk - 1) + nb ! (nb_chunk - 1)])
                [1 ..< k] (a[0 := 0]) ! i = sum_list (take i nb))"
  using assms(3,4)
proof (induction k rule: dec_induct)
  case base
  then show ?case using assms(1) by simp
next
  case (step k)
  let ?step = "\<lambda>nb_chunk max_nb. max_nb[nb_chunk := max_nb ! (nb_chunk - 1) + nb ! (nb_chunk - 1)]"
  let ?r = "fold ?step [1 ..< k] (a[0 := 0])"
  have IH: "length ?r = n" "\<forall>i<k. ?r ! i = sum_list (take i nb)"
    using step by simp_all
  have upt: "[1 ..< Suc k] = [1 ..< k] @ [k]" using step.hyps(1) by simp
  have r': "fold ?step [1 ..< Suc k] (a[0 := 0]) = ?r[k := ?r ! (k - 1) + nb ! (k - 1)]"
    unfolding upt by simp
  have k1: "k - 1 < k" "k - 1 < length nb" "Suc (k - 1) = k"
    using step.hyps(1) step.prems assms(2) by simp_all
  have "take k nb = take (k - 1) nb @ [nb ! (k - 1)]"
    using take_Suc_conv_app_nth [OF k1(2)] k1(3) by simp
  then have sum_k: "sum_list (take k nb) = sum_list (take (k - 1) nb) + nb ! (k - 1)"
    by simp
  have at_k: "(?r[k := ?r ! (k - 1) + nb ! (k - 1)]) ! k = sum_list (take k nb)"
    using IH k1(1) step.prems sum_k by simp
  show ?case
  proof (intro conjI allI impI)
    show "length (fold ?step [1 ..< Suc k] (a[0 := 0])) = n" using IH(1) r' by simp
  next
    fix i assume "i < Suc k"
    then consider "i < k" | "i = k" by linarith
    then show "fold ?step [1 ..< Suc k] (a[0 := 0]) ! i = sum_list (take i nb)"
    proof cases
      case 1
      then show ?thesis using IH(2) r' by simp
    next
      case 2
      then show ?thesis using at_k r' by simp
    qed
  qed
qed

lemma prefix_bases_eq:
  assumes "length a = n" and "length nb = n" and "0 < n"
  shows "prefix_bases n nb a = Inr (exclusive_prefix_sum nb)"
proof -
  let ?step = "\<lambda>nb_chunk max_nb. max_nb[nb_chunk := max_nb ! (nb_chunk - 1) + nb ! (nb_chunk - 1)]"
  let ?r = "fold ?step [1 ..< n] (a[0 := 0])"
  have n1: "1 \<le> n" using assms(3) by simp
  have r: "length ?r = n" "\<forall>i<n. ?r ! i = sum_list (take i nb)"
    using prefix_fold [OF assms(1,2) n1 order_refl] by simp_all
  have "?r = exclusive_prefix_sum nb"
  proof (rule nth_equalityI)
    show "length ?r = length (exclusive_prefix_sum nb)"
      using r(1) assms(2) by (simp add: exclusive_prefix_sum_def)
  next
    fix i assume "i < length ?r"
    then have "i < n" using r(1) by simp
    then show "?r ! i = exclusive_prefix_sum nb ! i"
      using r(2) assms(2) by (simp add: exclusive_prefix_sum_def)
  qed
  moreover have "a \<noteq> []" using assms(1,3) by auto
  ultimately show ?thesis by (simp add: prefix_bases_def)
qed

lemma prefix_bases_empty: "prefix_bases n nb [] = Inl IndexError"
  by (simp add: prefix_bases_def)

lemma exclusive_prefix_sum_length [simp]:
  "length (exclusive_prefix_sum counts) = length counts"
  by (simp add: exclusive_prefix_sum_def)

lemma exclusive_prefix_sum_nth:
  "i < length counts \<Longrightarrow> exclusive_prefix_sum counts ! i = sum_list (take i counts)"
  by (simp add: exclusive_prefix_sum_def)

lemma exclusive_prefix_sum_step:
  assumes "Suc i < length counts"
  shows "exclusive_prefix_sum counts ! Suc i - exclusive_prefix_sum counts ! i = counts ! i"
proof -
  have "i < length counts" using assms by simp
  then have "take (Suc i) counts = take i counts @ [counts ! i]"
    by (rule take_Suc_conv_app_nth)
  then show ?thesis using assms by (simp add: exclusive_prefix_sum_nth)
qed

lemma sint_sum_list:
  fixes xs :: "int32 list"
  assumes "\<forall>c\<in>set xs. 0 \<le> sint c" and "sum_list (map sint xs) < 2 ^ 31"
  shows "sint (sum_list xs) = sum_list (map sint xs)"
  using assms
proof (induction xs)
  case Nil
  then show ?case by simp
next
  case (Cons x xs)
  have nonneg: "0 \<le> sum_list (map sint xs)"
    using Cons.prems(1) by (intro sum_list_nonneg) auto
  have x0: "0 \<le> sint x" using Cons.prems(1) by simp
  have "sum_list (map sint xs) < 2 ^ 31" using Cons.prems(2) x0 by simp
  then have IH: "sint (sum_list xs) = sum_list (map sint xs)"
    using Cons.IH Cons.prems(1) by simp
  have "sint (x + sum_list xs) = signed_take_bit 31 (sint x + sint (sum_list xs))"
    by (simp add: sint_word_ariths)
  also have "\<dots> = sint x + sint (sum_list xs)"
    using x0 nonneg Cons.prems(2) IH by (intro signed_take_bit_int_eq_self) simp_all
  finally show ?case using IH by simp
qed

lemma sum_list_take_le:
  fixes ys :: "int list"
  assumes "\<forall>y\<in>set ys. 0 \<le> y"
  shows "sum_list (take i ys) \<le> sum_list ys"
proof -
  have "sum_list ys = sum_list (take i ys) + sum_list (drop i ys)"
    by (metis append_take_drop_id sum_list_append)
  moreover have "0 \<le> sum_list (drop i ys)"
    using assms by (intro sum_list_nonneg) (auto dest: in_set_dropD)
  ultimately show ?thesis by simp
qed

lemma exclusive_prefix_sum_sint:
  assumes "\<forall>c\<in>set counts. 0 \<le> sint c" and "sum_list (map sint counts) < 2 ^ 31"
    and "i < length counts"
  shows "sint (exclusive_prefix_sum counts ! i) = sum_list (map sint (take i counts))"
proof -
  have "sum_list (take i (map sint counts)) \<le> sum_list (map sint counts)"
    using assms(1) by (intro sum_list_take_le) auto
  then have "sum_list (map sint (take i counts)) < 2 ^ 31"
    using assms(2) by (simp add: take_map)
  moreover have "\<forall>c\<in>set (take i counts). 0 \<le> sint c"
    using assms(1) by (auto dest: in_set_takeD)
  ultimately show ?thesis
    using assms(3) by (simp add: exclusive_prefix_sum_nth sint_sum_list)
qed

lemma exclusive_prefix_sum_mono:
  assumes "\<forall>c\<in>set counts. 0 \<le> sint c" and "sum_list (map sint counts) < 2 ^ 31"
    and "Suc i < length counts"
  shows "sint (exclusive_prefix_sum counts ! Suc i)
           = sint (exclusive_prefix_sum counts ! i) + sint (counts ! i)"
proof -
  have i: "i < length counts" using assms(3) by simp
  have "take (Suc i) counts = take i counts @ [counts ! i]"
    using i by (rule take_Suc_conv_app_nth)
  then show ?thesis
    using exclusive_prefix_sum_sint [OF assms(1,2) assms(3)]
          exclusive_prefix_sum_sint [OF assms(1,2) i] by simp
qed

subsection \<open>Allocation for every name\<close>

lemma allocate_name_result:
  assumes "allocate_name n nb name (mx, lb) = Inr (mx', lb')"
    and "well_shaped names n nb" and "well_shaped names n mx" and "name \<in> set names"
  shows "0 < n \<and> (\<exists>counts. nb name = Some counts \<and> length counts = n
                     \<and> mx' = mx(name \<mapsto> exclusive_prefix_sum counts))"
proof -
  obtain counts where c: "nb name = Some counts" "length counts = n"
    using assms(2,4) unfolding well_shaped_def by metis
  obtain a where a: "mx name = Some a" "length a = n"
    using assms(3,4) unfolding well_shaped_def by metis
  have pos: "0 < n"
  proof (rule ccontr)
    assume "\<not> 0 < n"
    then have "a = []" using a(2) by simp
    then show False using assms(1) c a by (simp add: allocate_name_def prefix_bases_empty)
  qed
  have "prefix_bases n counts a = Inr (exclusive_prefix_sum counts)"
    using prefix_bases_eq [OF a(2) c(2) pos] .
  then have "mx' = mx(name \<mapsto> exclusive_prefix_sum counts)"
    using assms(1) c a by (simp add: allocate_name_def)
  then show ?thesis using pos c by blast
qed

lemma well_shaped_upd:
  "well_shaped names n d \<Longrightarrow> name \<in> set names \<Longrightarrow> length a = n \<Longrightarrow>
   well_shaped names n (d(name \<mapsto> a))"
  unfolding well_shaped_def by auto

lemma for_each_allocate:
  assumes "for_each (allocate_name n nb) ns st = Inr st'"
    and "well_shaped names n nb" and "well_shaped names n (fst st)"
    and "set ns \<subseteq> set names"
    and "\<forall>name\<in>S. \<exists>counts. nb name = Some counts \<and> fst st name = Some (exclusive_prefix_sum counts)"
  shows "well_shaped names n (fst st')
       \<and> (\<forall>name\<in>S \<union> set ns. \<exists>counts. nb name = Some counts
              \<and> fst st' name = Some (exclusive_prefix_sum counts))
       \<and> (ns \<noteq> [] \<longrightarrow> 0 < n)"
  using assms(1,3,4,5)
proof (induction ns arbitrary: st S)
  case Nil
  then show ?case by simp
next
  case (Cons name ns)
  obtain mx lb where st: "st = (mx, lb)" by (cases st)
  from Cons.prems(1) obtain st1 where
    s1: "allocate_name n nb name (mx, lb) = Inr st1" and
    s2: "for_each (allocate_name n nb) ns st1 = Inr st'"
    by (auto simp: st split: sum.splits)
  obtain mx1 lb1 where st1: "st1 = (mx1, lb1)" by (cases st1)
  have name_in: "name \<in> set names" using Cons.prems(3) by simp
  have ws_mx: "well_shaped names n mx" using Cons.prems(2) st by simp
  from allocate_name_result [OF s1 [unfolded st1] assms(2) ws_mx name_in]
  obtain counts where pos: "0 < n" and c: "nb name = Some counts" "length counts = n"
    and mx1: "mx1 = mx(name \<mapsto> exclusive_prefix_sum counts)" by blast
  have ws1: "well_shaped names n (fst st1)"
    using well_shaped_upd [OF ws_mx name_in, of "exclusive_prefix_sum counts"] c(2) mx1 st1
    by simp
  have inv1: "\<forall>name'\<in>insert name S. \<exists>counts. nb name' = Some counts
                \<and> fst st1 name' = Some (exclusive_prefix_sum counts)"
    using Cons.prems(4) c(1) mx1 st1 st by auto
  have sub: "set ns \<subseteq> set names" using Cons.prems(3) by simp
  from Cons.IH [OF s2 ws1 sub inv1]
  show ?case using pos by simp
qed

lemma from_probabilities_to_objects_Inr:
  assumes "from_probabilities_to_objects names ov sg th cl nch q qa results = Inr e"
  obtains thr infos ovl so tr nb st' where
    "make_chunk_translator cl nch = (chunk_list_used e, tr)"
    "scale_thresholds th = Inr thr"
    "gauss_threshold_connected_components names ov sg thr (Some (chunk_list_used e)) nch
       q qa results = Inr (infos, ovl, so)"
    "for_each (store_count tr) infos (zero_counts names (length (chunk_list_used e))) = Inr nb"
    "for_each (allocate_name (length (chunk_list_used e)) nb) names
       (zero_counts names (length (chunk_list_used e)), Map.empty) = Inr st'"
    "nb_cc_dict e = nb" "max_nb_dict e = fst st'" "max_labels e = snd st'"
    "thresholds_used e = thr"
  using assms unfolding from_probabilities_to_objects_def
  by (auto split: prod.splits sum.splits)

subsection \<open>The bases\<close>

text \<open>
  Claim C2, as the code has it: whenever from\_probabilities\_to\_objects gets as far as
  the maximal labels, the bases of every name are the exclusive prefix sum of that
  name's counts in chunk-list order, in int32 arithmetic: \<open>base[0] = 0\<close> and
  \<open>base[i+1] - base[i] = local_count[i]\<close> for every \<open>i < len(chunk_list) - 1\<close>; the
  bases are a function of the counts alone, so identical counts give identical bases;
  and as long as no count is negative and the counts add up to less than \<open>2^31\<close>, the
  bases never decrease in chunk order and increase strictly after every chunk with at
  least one component.
\<close>

theorem bases_exclusive_prefix_sum:
  assumes run: "from_probabilities_to_objects names ov sg th cl nch q qa results = Inr e"
    and name: "name \<in> set names"
  shows "\<exists>counts bases.
           nb_cc_dict e name = Some counts \<and> max_nb_dict e name = Some bases
         \<and> length counts = length (chunk_list_used e) \<and> length bases = length counts
         \<and> 0 < length bases
         \<and> bases = exclusive_prefix_sum counts
         \<and> bases ! 0 = 0
         \<and> (\<forall>i. Suc i < length bases \<longrightarrow> bases ! Suc i - bases ! i = counts ! i)
         \<and> ((\<forall>c\<in>set counts. 0 \<le> sint c) \<and> sum_list (map sint counts) < 2 ^ 31 \<longrightarrow>
              (\<forall>i. Suc i < length bases \<longrightarrow>
                 sint (bases ! i) \<le> sint (bases ! Suc i)
               \<and> (0 < sint (counts ! i) \<longrightarrow> sint (bases ! i) < sint (bases ! Suc i))))"
proof -
  let ?n = "length (chunk_list_used e)"
  from run obtain infos tr nb st' where
    store: "for_each (store_count tr) infos (zero_counts names ?n) = Inr nb" and
    alloc: "for_each (allocate_name ?n nb) names (zero_counts names ?n, Map.empty) = Inr st'" and
    e: "nb_cc_dict e = nb" "max_nb_dict e = fst st'"
    by (rule from_probabilities_to_objects_Inr)
  have ws_nb: "well_shaped names ?n nb"
    using for_each_store_well_shaped [OF store well_shaped_zero_counts] .
  have ws0: "well_shaped names ?n (fst (zero_counts names ?n, Map.empty :: string \<rightharpoonup> int))"
    by (simp add: well_shaped_zero_counts)
  have "\<forall>name\<in>{}. \<exists>counts. nb name = Some counts
          \<and> fst (zero_counts names ?n, Map.empty :: string \<rightharpoonup> int) name
              = Some (exclusive_prefix_sum counts)"
    by simp
  from for_each_allocate [OF alloc ws_nb ws0 subset_refl this] name
  obtain counts where pos: "0 < ?n" and c: "nb name = Some counts"
    and b: "fst st' name = Some (exclusive_prefix_sum counts)"
    by (cases names) auto
  have len: "length counts = ?n"
    using ws_nb c name unfolding well_shaped_def by (metis option.inject)
  let ?b = "exclusive_prefix_sum counts"
  have zero: "?b ! 0 = 0" using pos len by (simp add: exclusive_prefix_sum_nth)
  have step: "\<forall>i. Suc i < length ?b \<longrightarrow> ?b ! Suc i - ?b ! i = counts ! i"
    by (simp add: exclusive_prefix_sum_step)
  have mono: "(\<forall>c\<in>set counts. 0 \<le> sint c) \<and> sum_list (map sint counts) < 2 ^ 31 \<longrightarrow>
              (\<forall>i. Suc i < length ?b \<longrightarrow>
                 sint (?b ! i) \<le> sint (?b ! Suc i)
               \<and> (0 < sint (counts ! i) \<longrightarrow> sint (?b ! i) < sint (?b ! Suc i)))"
  proof (intro impI allI)
    fix i
    assume h: "(\<forall>c\<in>set counts. 0 \<le> sint c) \<and> sum_list (map sint counts) < 2 ^ 31"
      and i: "Suc i < length ?b"
    then have i': "Suc i < length counts" by simp
    have eq: "sint (?b ! Suc i) = sint (?b ! i) + sint (counts ! i)"
      using exclusive_prefix_sum_mono [of counts i] h i' by blast
    have "0 \<le> sint (counts ! i)" using h i' by simp
    then show "sint (?b ! i) \<le> sint (?b ! Suc i)
               \<and> (0 < sint (counts ! i) \<longrightarrow> sint (?b ! i) < sint (?b ! Suc i))"
      using eq by simp
  qed
  show ?thesis
    using c b len pos zero step mono e by (intro exI [of _ counts] exI [of _ ?b]) simp
qed

theorem bases_exclusive_prefix_sum_witness:
  "map_sum id (\<lambda>e. (nb_cc_dict e ''sj'', max_nb_dict e ''sj''))
     (from_probabilities_to_objects [''sj''] Auto None None (Some [4, 7, 9]) 10 False False
        [[(4, ''sj'', 3)], [(7, ''sj'', 2)], [(9, ''sj'', 6)]])
     = Inr (Some [3, 2, 6], Some [0, 3, 5])
   \<and> [0, 3, 5] = exclusive_prefix_sum [3, 2, 6]
   \<and> sint ([0, 3, 5 :: int32] ! 0) < sint ([0, 3, 5 :: int32] ! Suc 0)"
proof -
  let ?run = "from_probabilities_to_objects [''sj''] Auto None None (Some [4, 7, 9]) 10 False False
        [[(4, ''sj'', 3)], [(7, ''sj'', 2)], [(9, ''sj'', 6)]]"
  have "\<not> isl ?run" by code_simp
  then obtain e where ev: "?run = Inr e" by (cases ?run) auto
  have name: "''sj'' \<in> set [''sj'']" by simp
  have nb: "map_sum id (\<lambda>e. nb_cc_dict e ''sj'') ?run = Inr (Some [3, 2, 6])" by code_simp
  from bases_exclusive_prefix_sum [OF ev name]
  obtain counts bases where
    f: "nb_cc_dict e ''sj'' = Some counts" "max_nb_dict e ''sj'' = Some bases"
       "bases = exclusive_prefix_sum counts"
       "(\<forall>c\<in>set counts. 0 \<le> sint c) \<and> sum_list (map sint counts) < 2 ^ 31 \<longrightarrow>
          (\<forall>i. Suc i < length bases \<longrightarrow>
             sint (bases ! i) \<le> sint (bases ! Suc i)
           \<and> (0 < sint (counts ! i) \<longrightarrow> sint (bases ! i) < sint (bases ! Suc i)))"
    by blast
  have counts: "counts = [3, 2, 6]" using f(1) nb unfolding ev by simp
  have eps: "exclusive_prefix_sum [3, 2, 6] = [0, 3, 5]" by code_simp
  have bases: "bases = [0, 3, 5]" using f(3) counts eps by simp
  have small: "(\<forall>c\<in>set [3, 2, 6 :: int32]. 0 \<le> sint c)
             \<and> sum_list (map sint [3, 2, 6 :: int32]) < 2 ^ 31"
    by simp
  have "Suc 0 < length [0, 3, 5 :: int32]" "0 < sint ([3, 2, 6 :: int32] ! 0)" by simp_all
  with f(4) small have "sint ([0, 3, 5 :: int32] ! 0) < sint ([0, 3, 5 :: int32] ! Suc 0)"
    unfolding counts bases by blast
  then show ?thesis using nb f(2) eps unfolding ev bases by simp
qed

text \<open>
  Claim C2 as stated asks for strictly increasing bases. A chunk without components
  (here the middle one of three) gets the same base as its successor.
\<close>

theorem bases_not_strictly_increasing_counterexample:
  "map_sum id (\<lambda>e. (nb_cc_dict e ''sj'', max_nb_dict e ''sj''))
     (from_probabilities_to_objects [''sj''] Auto None None (Some [0, 1, 2]) 3 False False
        [[(0, ''sj'', 4)], [(1, ''sj'', 0)], [(2, ''sj'', 5)]])
     = Inr (Some [4, 0, 5], Some [0, 4, 4])
   \<and> \<not> sint ([0, 4, 4 :: int32] ! 1) < sint ([0, 4, 4 :: int32] ! 2)"
  by code_simp

section \<open>Chunks without a result\<close>

lemma translator_fold:
  "(fold (\<lambda>ii tr. tr(f ii \<mapsto> ii)) [0 ..< k] Map.empty x = Some i \<longrightarrow> i < k \<and> f i = x)
   \<and> (i < k \<longrightarrow> (\<exists>j<k. fold (\<lambda>ii tr. tr(f ii \<mapsto> ii)) [0 ..< k] Map.empty (f i) = Some j))"
proof (induction k)
  case 0
  then show ?case by simp
next
  case (Suc k)
  then show ?case by (auto simp: less_Suc_eq)
qed

lemma make_chunk_translator_props:
  assumes "make_chunk_translator cl nch = (chunk_list, tr)"
  shows "tr x = Some i \<Longrightarrow> i < length chunk_list \<and> chunk_list ! i = x"
    and "c \<in> set chunk_list \<Longrightarrow> \<exists>j<length chunk_list. tr c = Some j"
proof -
  have tr: "tr = fold (\<lambda>ii tr. tr(chunk_list ! ii \<mapsto> ii)) [0 ..< length chunk_list] Map.empty"
  proof (cases cl)
    case None
    have "fold (\<lambda>ii tr. tr(ii \<mapsto> ii)) [0 ..< k] m
            = fold (\<lambda>ii tr. tr([0 ..< nch] ! ii \<mapsto> ii)) [0 ..< k] m" if "k \<le> nch" for k m
      using that by (intro fold_cong) auto
    then show ?thesis using assms None by (auto simp: make_chunk_translator_def)
  next
    case (Some l)
    then show ?thesis using assms by (auto simp: make_chunk_translator_def)
  qed
  show "tr x = Some i \<Longrightarrow> i < length chunk_list \<and> chunk_list ! i = x"
    using translator_fold [of "\<lambda>ii. chunk_list ! ii" "length chunk_list" x i] tr by simp
  show "c \<in> set chunk_list \<Longrightarrow> \<exists>j<length chunk_list. tr c = Some j"
  proof -
    assume "c \<in> set chunk_list"
    then obtain i where i: "i < length chunk_list" "chunk_list ! i = c"
      by (auto simp: in_set_conv_nth)
    then show ?thesis
      using translator_fold [of "\<lambda>ii. chunk_list ! ii" "length chunk_list" c i] tr by auto
  qed
qed

lemma store_count_untouched:
  assumes "store_count tr info d = Inr d'"
    and "tr (fst info) \<noteq> Some i"
    and "\<forall>name a. d name = Some a \<longrightarrow> a ! i = 0"
  shows "\<forall>name a. d' name = Some a \<longrightarrow> a ! i = 0"
  using assms unfolding store_count_def
  by (auto split: prod.splits option.splits if_splits)

lemma for_each_store_untouched:
  assumes "for_each (store_count tr) infos d = Inr d'"
    and "\<forall>info\<in>set infos. tr (fst info) \<noteq> Some i"
    and "\<forall>name a. d name = Some a \<longrightarrow> a ! i = 0"
  shows "\<forall>name a. d' name = Some a \<longrightarrow> a ! i = 0"
  using assms
proof (induction infos arbitrary: d)
  case Nil
  then show ?case by simp
next
  case (Cons info infos)
  from Cons.prems(1) obtain d1 where
    s1: "store_count tr info d = Inr d1" and s2: "for_each (store_count tr) infos d1 = Inr d'"
    by (auto split: sum.splits)
  have "\<forall>name a. d1 name = Some a \<longrightarrow> a ! i = 0"
    using store_count_untouched [OF s1] Cons.prems(2,3) by simp
  then show ?case using Cons.IH [OF s2] Cons.prems(2) by simp
qed

lemma store_zero_noop:
  assumes "well_shaped names n d" and "name \<in> set names"
    and "tr c = Some i" and "i < n"
    and "\<forall>name a. d name = Some a \<longrightarrow> a ! i = 0"
  shows "store_count tr (c, name, 0) d = Inr d"
proof -
  obtain a where a: "d name = Some a" "length a = n"
    using assms(1,2) unfolding well_shaped_def by metis
  have "a ! i = 0" using assms(5) a(1) by simp
  then have "a[i := 0] = a" by (metis list_update_id)
  then have "d(name \<mapsto> a[i := 0]) = d" using a(1) by (simp add: map_upd_triv)
  then show ?thesis using a assms(3,4) by (simp add: store_count_def)
qed

lemma for_each_store_zero_noop:
  assumes "well_shaped names n d" and "set ns \<subseteq> set names"
    and "tr c = Some i" and "i < n"
    and "\<forall>name a. d name = Some a \<longrightarrow> a ! i = 0"
  shows "for_each (store_count tr) (map (\<lambda>name. (c, name, 0)) ns) d = Inr d"
  using assms(2)
proof (induction ns)
  case Nil
  then show ?case by simp
next
  case (Cons name ns)
  have "name \<in> set names" using Cons.prems by simp
  then have "store_count tr (c, name, 0) d = Inr d"
    using store_zero_noop [of names n d name tr c i] assms(1,3,4,5) by blast
  then show ?case using Cons by simp
qed

lemma gauss_results:
  "gauss_threshold_connected_components names ov sg thr cl nch q qa results' =
     (case gauss_threshold_connected_components names ov sg thr cl nch q qa results of
        Inl e \<Rightarrow> Inl e
      | Inr (infos, ovl, so) \<Rightarrow> Inr (concat results', ovl, so))"
  unfolding gauss_threshold_connected_components_def Let_def
  by (auto split: sum.splits overlap_arg.splits option.splits)

lemma gauss_infos:
  "gauss_threshold_connected_components names ov sg thr cl nch q qa results
     = Inr (infos, ovl, so) \<Longrightarrow>
   infos = concat results"
  unfolding gauss_threshold_connected_components_def Let_def
  by (auto split: sum.splits overlap_arg.splits option.splits if_splits)

text \<open>
  Claim C3, as the code has it: a chunk of the chunk list whose record is absent from the
  collected results is carried on with the count 0 its slot was initialised with. The
  run, whether it ends in an error or in the maximal labels, is the same as the run in
  which that chunk had reported zero components for every name; nothing in it names the
  chunk.
\<close>

theorem absent_chunk_counts_as_empty:
  assumes c: "c \<in> set (fst (make_chunk_translator cl nch))"
    and absent: "\<forall>info\<in>set (concat results). fst info \<noteq> c"
  shows "from_probabilities_to_objects names ov sg th cl nch q qa results
       = from_probabilities_to_objects names ov sg th cl nch q qa
           (results @ [map (\<lambda>name. (c, name, 0)) names])"
proof -
  obtain chunk_list tr where mct: "make_chunk_translator cl nch = (chunk_list, tr)"
    by (cases "make_chunk_translator cl nch")
  let ?n = "length chunk_list"
  let ?zs = "map (\<lambda>name. (c, name, 0 :: int)) names"
  have c': "c \<in> set chunk_list" using c mct by simp
  obtain i where i: "i < ?n" "tr c = Some i"
    using make_chunk_translator_props(2) [OF mct c'] by blast
  have other: "\<forall>info\<in>set (concat results). tr (fst info) \<noteq> Some i"
  proof
    fix info assume info: "info \<in> set (concat results)"
    show "tr (fst info) \<noteq> Some i"
    proof
      assume "tr (fst info) = Some i"
      then have "chunk_list ! i = fst info"
        using make_chunk_translator_props(1) [OF mct] by blast
      moreover have "chunk_list ! i = c"
        using make_chunk_translator_props(1) [OF mct i(2)] by blast
      ultimately show False using absent info by auto
    qed
  qed
  have zero0: "\<forall>name a. zero_counts names ?n name = Some a \<longrightarrow> a ! i = 0"
    using i(1) by (auto simp: zero_counts_apply split: if_splits)
  have store: "for_each (store_count tr) (concat results @ ?zs) (zero_counts names ?n)
             = for_each (store_count tr) (concat results) (zero_counts names ?n)"
  proof (cases "for_each (store_count tr) (concat results) (zero_counts names ?n)")
    case (Inl err)
    then show ?thesis by (simp add: for_each_append)
  next
    case (Inr nb)
    have ws: "well_shaped names ?n nb"
      using for_each_store_well_shaped [OF Inr well_shaped_zero_counts] .
    have z: "\<forall>name a. nb name = Some a \<longrightarrow> a ! i = 0"
      using for_each_store_untouched [OF Inr other zero0] .
    have "for_each (store_count tr) ?zs nb = Inr nb"
      using for_each_store_zero_noop [of names ?n nb names tr c i] ws i z by blast
    then show ?thesis using Inr by (simp add: for_each_append)
  qed
  show ?thesis
  proof (cases "scale_thresholds th")
    case (Inl err)
    then show ?thesis by (simp add: from_probabilities_to_objects_def mct)
  next
    case thr: (Inr thr)
    show ?thesis
    proof (cases "gauss_threshold_connected_components names ov sg thr (Some chunk_list) nch
                  q qa results")
      case (Inl err)
      then have "gauss_threshold_connected_components names ov sg thr (Some chunk_list) nch
                   q qa (results @ [?zs]) = Inl err"
        using gauss_results [of names ov sg thr "Some chunk_list" nch q qa "results @ [?zs]" results]
        by simp
      then show ?thesis using Inl thr by (simp add: from_probabilities_to_objects_def mct)
    next
      case (Inr res)
      obtain infos ovl so where res: "res = (infos, ovl, so)" by (cases res)
      have infos: "infos = concat results" using gauss_infos Inr res by blast
      have g': "gauss_threshold_connected_components names ov sg thr (Some chunk_list) nch
                   q qa (results @ [?zs]) = Inr (concat results @ ?zs, ovl, so)"
        using gauss_results [of names ov sg thr "Some chunk_list" nch q qa "results @ [?zs]" results]
              Inr res by simp
      show ?thesis
        using Inr res infos g' thr store
        by (simp add: from_probabilities_to_objects_def mct)
    qed
  qed
qed

theorem absent_chunk_counts_as_empty_witness:
  "from_probabilities_to_objects [''sj''] Auto None None (Some [0, 1]) 2 True True [[(0, ''sj'', 3)]]
     = from_probabilities_to_objects [''sj''] Auto None None (Some [0, 1]) 2 True True
         ([[(0, ''sj'', 3)]] @ [map (\<lambda>name. (1, name, 0)) [''sj'']])
   \<and> \<not> isl (from_probabilities_to_objects [''sj''] Auto None None (Some [0, 1]) 2 True True
              [[(0, ''sj'', 3)]])"
proof -
  have c: "1 \<in> set (fst (make_chunk_translator (Some [0, 1]) 2))"
    by (simp add: make_chunk_translator_def)
  have absent: "\<forall>info\<in>set (concat [[(0 :: nat, ''sj'', 3 :: int)]]). fst info \<noteq> 1"
    by simp
  have run: "\<not> isl (from_probabilities_to_objects [''sj''] Auto None None (Some [0, 1]) 2 True True
              [[(0, ''sj'', 3)]])"
    by code_simp
  show ?thesis
    using absent_chunk_counts_as_empty [OF c absent, of "[''sj'']" Auto None None True True] run
    by blast
qed

text \<open>
  Claim C3 as stated says that the pipeline does not go on to the allocation when a
  chunk's record is absent. With the chunk list [0, 1] and a record for chunk 0 only,
  the allocation is carried out and chunk 1 counts as empty.
\<close>

theorem missing_chunk_not_reported_counterexample:
  "map_sum id (\<lambda>e. (nb_cc_dict e ''sj'', max_nb_dict e ''sj'', max_labels e ''sj''))
     (from_probabilities_to_objects [''sj''] Auto None None (Some [0, 1]) 2 True True
        [[(0, ''sj'', 3)]])
     = Inr (Some [3, 0], Some [0, 3], Some 3)"
  by code_simp

section \<open>Connected components of a stitch list\<close>

lemma connected_refl: "(x, x) \<in> connected es"
  by (simp add: connected_def)

lemma connected_sym: "(x, y) \<in> connected es \<Longrightarrow> (y, x) \<in> connected es"
proof -
  have "sym (set es \<union> (set es)\<inverse>)" by (auto simp: sym_def)
  then have "sym (connected es)" unfolding connected_def by (rule sym_rtrancl)
  then show "(x, y) \<in> connected es \<Longrightarrow> (y, x) \<in> connected es" by (rule symD)
qed

lemma connected_trans:
  "(x, y) \<in> connected es \<Longrightarrow> (y, z) \<in> connected es \<Longrightarrow> (x, z) \<in> connected es"
  unfolding connected_def by (rule rtrancl_trans)

lemma connected_edge: "e \<in> set es \<Longrightarrow> (fst e, snd e) \<in> connected es"
  unfolding connected_def by (intro r_into_rtrancl) simp

lemma connected_Cons: "(x, y) \<in> connected es \<Longrightarrow> (x, y) \<in> connected (e # es)"
proof -
  have "(set es \<union> (set es)\<inverse>)\<^sup>* \<subseteq> (set (e # es) \<union> (set (e # es))\<inverse>)\<^sup>*"
    by (rule rtrancl_mono) auto
  then show "(x, y) \<in> connected es \<Longrightarrow> (x, y) \<in> connected (e # es)"
    unfolding connected_def by blast
qed

lemma connected_set_eq: "set es' = set es \<Longrightarrow> connected es' = connected es"
  by (simp add: connected_def)

lemma nodes_set_eq: "set es' = set es \<Longrightarrow> nodes es' = nodes es"
  by (simp add: nodes_def)

lemma distinct_concat_filter:
  "distinct (concat cs) \<Longrightarrow> distinct (concat (filter P cs))"
  by (induction cs) auto

lemma distinct_concat_same:
  assumes "distinct (concat cs)" and "c \<in> set cs" and "d \<in> set cs"
    and "x \<in> set c" and "x \<in> set d"
  shows "c = d"
  using assms by (auto simp: distinct_concat_iff)

lemma partition_of_Nil: "partition_of [] []"
  by (simp add: partition_of_def nodes_def)

lemma set_new_component:
  "set (remdups (concat (filter (touches e) cs) @ [fst e, snd e]))
     = (\<Union>c\<in>{c \<in> set cs. touches e c}. set c) \<union> {fst e, snd e}"
  by auto

lemma partition_of_add_edge:
  assumes P: "partition_of es cs"
  shows "partition_of (e # es) (add_edge e cs)"
proof -
  let ?hit = "filter (touches e) cs"
  let ?rest = "filter (\<lambda>c. \<not> touches e c) cs"
  let ?new = "remdups (concat ?hit @ [fst e, snd e])"
  have dist: "distinct (concat cs)" and ne: "[] \<notin> set cs"
    and cover: "set (concat cs) = nodes es"
    and sound: "\<forall>c\<in>set cs. \<forall>x\<in>set c. \<forall>y\<in>set c. (x, y) \<in> connected es"
    and complete: "\<forall>e\<in>set es. \<exists>c\<in>set cs. fst e \<in> set c \<and> snd e \<in> set c"
    using P unfolding partition_of_def by blast+
  have set_new: "set ?new = (\<Union>c\<in>{c \<in> set cs. touches e c}. set c) \<union> {fst e, snd e}"
    by (rule set_new_component)
  have e_conn: "(fst e, snd e) \<in> connected (e # es)"
    by (rule connected_edge) simp
  have to_a: "(x, fst e) \<in> connected (e # es)" if "x \<in> set ?new" for x
  proof -
    from that set_new consider c where "c \<in> set cs" "touches e c" "x \<in> set c"
      | "x = fst e" | "x = snd e" by auto
    then show ?thesis
    proof cases
      case 1
      from 1(2) consider "fst e \<in> set c" | "snd e \<in> set c" unfolding touches_def by blast
      then show ?thesis
      proof cases
        case 1
        then have "(x, fst e) \<in> connected es" using sound \<open>c \<in> set cs\<close> \<open>x \<in> set c\<close> by blast
        then show ?thesis by (rule connected_Cons)
      next
        case 2
        then have "(x, snd e) \<in> connected es" using sound \<open>c \<in> set cs\<close> \<open>x \<in> set c\<close> by blast
        then have "(x, snd e) \<in> connected (e # es)" by (rule connected_Cons)
        then show ?thesis using connected_sym [OF e_conn] connected_trans by blast
      qed
    next
      case 2
      then show ?thesis by (simp add: connected_refl)
    next
      case 3
      then show ?thesis using connected_sym [OF e_conn] by simp
    qed
  qed
  have d1: "distinct (concat (add_edge e cs))"
  proof -
    have "distinct ?new" by simp
    moreover have "distinct (concat ?rest)" using dist by (rule distinct_concat_filter)
    moreover have "set ?new \<inter> set (concat ?rest) = {}"
    proof (rule ccontr)
      assume "set ?new \<inter> set (concat ?rest) \<noteq> {}"
      then obtain x d where x: "x \<in> set ?new" and d: "d \<in> set cs" "\<not> touches e d" "x \<in> set d"
        by auto
      from x set_new consider c where "c \<in> set cs" "touches e c" "x \<in> set c"
        | "x = fst e \<or> x = snd e" by auto
      then show False
      proof cases
        case 1
        then have "c = d" using distinct_concat_same [OF dist _ d(1) _ d(3)] by blast
        then show False using 1(2) d(2) by simp
      next
        case 2
        then show False using d(2,3) unfolding touches_def by auto
      qed
    qed
    ultimately show ?thesis by (simp add: add_edge_def)
  qed
  have d2: "[] \<notin> set (add_edge e cs)"
  proof -
    have "fst e \<in> set ?new" by simp
    then have "?new \<noteq> []" by (metis empty_iff empty_set)
    then show ?thesis using ne by (auto simp: add_edge_def)
  qed
  have d3: "set (concat (add_edge e cs)) = nodes (e # es)"
  proof -
    have "set (concat (add_edge e cs)) = set (concat cs) \<union> {fst e, snd e}"
      by (auto simp: add_edge_def)
    then show ?thesis using cover by (auto simp: nodes_def)
  qed
  have d4: "\<forall>c\<in>set (add_edge e cs). \<forall>x\<in>set c. \<forall>y\<in>set c. (x, y) \<in> connected (e # es)"
  proof (intro ballI)
    fix c x y assume c: "c \<in> set (add_edge e cs)" and x: "x \<in> set c" and y: "y \<in> set c"
    from c consider "c = ?new" | "c \<in> set cs" by (auto simp: add_edge_def)
    then show "(x, y) \<in> connected (e # es)"
    proof cases
      case 1
      then have "(x, fst e) \<in> connected (e # es)" "(y, fst e) \<in> connected (e # es)"
        using to_a x y by blast+
      then show ?thesis using connected_sym connected_trans by blast
    next
      case 2
      then show ?thesis using sound x y connected_Cons by blast
    qed
  qed
  have d5: "\<forall>e'\<in>set (e # es). \<exists>c\<in>set (add_edge e cs). fst e' \<in> set c \<and> snd e' \<in> set c"
  proof
    fix e' assume "e' \<in> set (e # es)"
    then consider "e' = e" | "e' \<in> set es" by auto
    then show "\<exists>c\<in>set (add_edge e cs). fst e' \<in> set c \<and> snd e' \<in> set c"
    proof cases
      case 1
      have "?new \<in> set (add_edge e cs)" by (simp add: add_edge_def)
      moreover have "fst e \<in> set ?new" "snd e \<in> set ?new" by simp_all
      ultimately show ?thesis using 1 by blast
    next
      case 2
      then obtain c where c: "c \<in> set cs" "fst e' \<in> set c" "snd e' \<in> set c"
        using complete by blast
      show ?thesis
      proof (cases "touches e c")
        case True
        then have "set c \<subseteq> set ?new" using c(1) set_new by blast
        moreover have "?new \<in> set (add_edge e cs)" by (simp add: add_edge_def)
        ultimately show ?thesis using c(2,3) by blast
      next
        case False
        then have "c \<in> set (add_edge e cs)" using c(1) by (simp add: add_edge_def)
        then show ?thesis using c(2,3) by blast
      qed
    qed
  qed
  show ?thesis unfolding partition_of_def using d1 d2 d3 d4 d5 by blast
qed

lemma partition_of_connected_components: "partition_of es (connected_components es)"
  by (induction es) (simp_all add: connected_components_def partition_of_Nil partition_of_add_edge)

lemma partition_closed:
  assumes P: "partition_of es cs" and c: "c \<in> set cs" and x: "x \<in> set c"
    and xy: "(x, y) \<in> connected es"
  shows "y \<in> set c"
  using xy unfolding connected_def
proof (induction rule: rtrancl_induct)
  case base
  then show ?case by (rule x)
next
  case (step y z)
  have dist: "distinct (concat cs)"
    and complete: "\<forall>e\<in>set es. \<exists>c\<in>set cs. fst e \<in> set c \<and> snd e \<in> set c"
    using P unfolding partition_of_def by blast+
  from step.hyps(2) obtain d where d: "d \<in> set cs" "y \<in> set d" "z \<in> set d"
    using complete by force
  have "c = d" using distinct_concat_same [OF dist c d(1) step.IH d(2)] .
  then show ?case using d(3) by simp
qed

lemma partition_component_eq:
  assumes "partition_of es cs" and "c \<in> set cs" and "x \<in> set c"
  shows "set c = {y. (x, y) \<in> connected es}"
  using assms partition_closed [OF assms] unfolding partition_of_def by blast

section \<open>Merging the components\<close>

lemma for_each_assign:
  "for_each (assign_id first) ids (md, ml) =
     (if \<forall>i\<in>set ids. i < length ml
      then Inr (\<lambda>x. if x \<in> set ids then Some first else md x,
                map (\<lambda>x. if x \<in> set ids then first else ml ! x) [0 ..< length ml])
      else Inl IndexError)"
proof (induction ids arbitrary: md ml)
  case Nil
  show ?case by (simp add: map_nth)
next
  case (Cons i ids)
  show ?case
  proof (cases "i < length ml")
    case False
    then show ?thesis by (simp add: assign_id_def)
  next
    case True
    have step: "assign_id first i (md, ml) = Inr (md(i \<mapsto> first), ml[i := first])"
      using True by (simp add: assign_id_def)
    have f: "(\<lambda>x. if x \<in> set ids then Some first else (md(i \<mapsto> first)) x)
           = (\<lambda>x. if x \<in> set (i # ids) then Some first else md x)"
      by auto
    have l: "map (\<lambda>x. if x \<in> set ids then first else ml[i := first] ! x) [0 ..< length ml]
           = map (\<lambda>x. if x \<in> set (i # ids) then first else ml ! x) [0 ..< length ml]"
      by (rule map_cong) (auto simp: nth_list_update)
    show ?thesis
      using True by (simp add: step Cons.IH f l del: set_simps) auto
  qed
qed

lemma merge_component_eq:
  assumes "set (enum c) = set c" and "c \<noteq> []"
  shows "merge_component enum c (md, ml) =
     (if \<forall>i\<in>set c. i < length ml
      then Inr (\<lambda>x. if x \<in> set c then Some (hd (enum c)) else md x,
                map (\<lambda>x. if x \<in> set c then hd (enum c) else ml ! x) [0 ..< length ml])
      else Inl IndexError)"
proof -
  have "enum c \<noteq> []" using assms by (metis set_empty)
  then obtain first rest where e: "enum c = first # rest" by (cases "enum c") auto
  have hd: "hd (enum c) = first" using e by simp
  have "merge_component enum c (md, ml) = for_each (assign_id first) (enum c) (md, ml)"
    by (simp add: merge_component_def e)
  also have "\<dots> =
     (if \<forall>i\<in>set (enum c). i < length ml
      then Inr (\<lambda>x. if x \<in> set (enum c) then Some first else md x,
                map (\<lambda>x. if x \<in> set (enum c) then first else ml ! x) [0 ..< length ml])
      else Inl IndexError)"
    by (rule for_each_assign)
  finally show ?thesis unfolding hd [symmetric] assms(1) .
qed

lemma find_disjoint:
  assumes "distinct (concat (c # cs))" and "x \<in> set c"
  shows "find (\<lambda>d. x \<in> set d) cs = None"
  using assms by (auto simp: find_None_iff)

lemma for_each_merge:
  assumes enum: "\<forall>c. set (enum c) = set c"
    and "[] \<notin> set cs" and "distinct (concat cs)"
  shows "for_each (merge_component enum) cs (md, ml) =
     (if \<forall>i\<in>set (concat cs). i < length ml
      then Inr (\<lambda>x. case representative enum cs x of None \<Rightarrow> md x | Some r \<Rightarrow> Some r,
                map (\<lambda>x. case representative enum cs x of None \<Rightarrow> ml ! x | Some r \<Rightarrow> r)
                    [0 ..< length ml])
      else Inl IndexError)"
  using assms(2,3)
proof (induction cs arbitrary: md ml)
  case Nil
  show ?case by (simp add: representative_def map_nth)
next
  case (Cons c cs)
  have c: "c \<noteq> []" and ne: "[] \<notin> set cs" and dist: "distinct (concat cs)"
    using Cons.prems by auto
  have mc: "merge_component enum c (md, ml) =
     (if \<forall>i\<in>set c. i < length ml
      then Inr (\<lambda>x. if x \<in> set c then Some (hd (enum c)) else md x,
                map (\<lambda>x. if x \<in> set c then hd (enum c) else ml ! x) [0 ..< length ml])
      else Inl IndexError)"
    using merge_component_eq [of enum c md ml] enum c by blast
  show ?case
  proof (cases "\<forall>i\<in>set c. i < length ml")
    case False
    then show ?thesis using mc by auto
  next
    case True
    let ?md1 = "\<lambda>x. if x \<in> set c then Some (hd (enum c)) else md x"
    let ?ml1 = "map (\<lambda>x. if x \<in> set c then hd (enum c) else ml ! x) [0 ..< length ml]"
    have len: "length ?ml1 = length ml" by simp
    have rep: "representative enum (c # cs) x
             = (if x \<in> set c then Some (hd (enum c)) else representative enum cs x)" for x
      by (simp add: representative_def)
    have none: "representative enum cs x = None" if "x \<in> set c" for x
      using find_disjoint [OF Cons.prems(2) that] by (simp add: representative_def)
    have f: "(\<lambda>x. case representative enum cs x of None \<Rightarrow> ?md1 x | Some r \<Rightarrow> Some r)
           = (\<lambda>x. case representative enum (c # cs) x of None \<Rightarrow> md x | Some r \<Rightarrow> Some r)"
      by (rule ext) (auto simp: rep none split: option.splits)
    have l: "map (\<lambda>x. case representative enum cs x of None \<Rightarrow> ?ml1 ! x | Some r \<Rightarrow> r)
                 [0 ..< length ml]
           = map (\<lambda>x. case representative enum (c # cs) x of None \<Rightarrow> ml ! x | Some r \<Rightarrow> r)
                 [0 ..< length ml]"
      by (rule map_cong) (auto simp: rep none split: option.splits)
    have "for_each (merge_component enum) (c # cs) (md, ml)
            = for_each (merge_component enum) cs (?md1, ?ml1)"
      using mc True by simp
    also have "\<dots> =
       (if \<forall>i\<in>set (concat cs). i < length ?ml1
        then Inr (\<lambda>x. case representative enum cs x of None \<Rightarrow> ?md1 x | Some r \<Rightarrow> Some r,
                  map (\<lambda>x. case representative enum cs x of None \<Rightarrow> ?ml1 ! x | Some r \<Rightarrow> r)
                      [0 ..< length ?ml1])
        else Inl IndexError)"
      by (rule Cons.IH [OF ne dist])
    finally show ?thesis using True unfolding len f l by auto
  qed
qed

lemma merge_stitch_list_eq:
  assumes enum: "\<forall>c. set (enum c) = set c"
  shows "merge_stitch_list enum es max_label =
     (if \<forall>i\<in>nodes es. i \<le> max_label
      then Inr (representative enum (connected_components es),
                map (\<lambda>x. case representative enum (connected_components es) x of
                            None \<Rightarrow> x | Some r \<Rightarrow> r) [0 ..< max_label + 1])
      else Inl IndexError)"
proof -
  let ?cs = "connected_components es"
  have P: "partition_of es ?cs" by (rule partition_of_connected_components)
  then have ne: "[] \<notin> set ?cs" and dist: "distinct (concat ?cs)"
    and cover: "set (concat ?cs) = nodes es"
    unfolding partition_of_def by blast+
  have f: "(\<lambda>x. case representative enum ?cs x of None \<Rightarrow> Map.empty x | Some r \<Rightarrow> Some r)
         = representative enum ?cs"
    by (rule ext) (simp split: option.splits)
  have l: "map (\<lambda>x. case representative enum ?cs x of None \<Rightarrow> [0 ..< max_label + 1] ! x | Some r \<Rightarrow> r)
               [0 ..< length [0 ..< max_label + 1]]
         = map (\<lambda>x. case representative enum ?cs x of None \<Rightarrow> x | Some r \<Rightarrow> r)
               [0 ..< max_label + 1]"
    by (rule map_cong) (auto split: option.splits simp del: upt_Suc)
  have rng: "(\<forall>i\<in>set (concat ?cs). i < length [0 ..< max_label + 1])
           \<longleftrightarrow> (\<forall>i\<in>nodes es. i \<le> max_label)"
    unfolding cover by auto
  show ?thesis
    unfolding merge_stitch_list_def Let_def
      for_each_merge [OF enum ne dist, of Map.empty "[0 ..< max_label + 1]"] f l rng
    by (rule refl)
qed

section \<open>Canonical ids\<close>

lemma find_component:
  assumes "distinct (concat cs)" and "c \<in> set cs" and "x \<in> set c"
  shows "find (\<lambda>d. x \<in> set d) cs = Some c"
proof (cases "find (\<lambda>d. x \<in> set d) cs")
  case None
  then show ?thesis using assms(2,3) by (auto simp: find_None_iff)
next
  case (Some d)
  then have "d \<in> set cs" "x \<in> set d" by (auto simp: find_Some_iff)
  then have "c = d" using distinct_concat_same [OF assms(1,2) _ assms(3)] by blast
  then show ?thesis using Some by simp
qed

lemma representative_outside:
  assumes "partition_of es cs" and "x \<notin> nodes es"
  shows "representative enum cs x = None"
proof -
  have "set (concat cs) = nodes es" using assms(1) unfolding partition_of_def by blast
  then have "\<forall>c\<in>set cs. x \<notin> set c" using assms(2) by auto
  then show ?thesis by (simp add: representative_def find_None_iff)
qed

lemma representative_inside:
  assumes P: "partition_of es cs" and enum: "\<forall>c. set (enum c) = set c" and x: "x \<in> nodes es"
  shows "\<exists>c. c \<in> set cs \<and> x \<in> set c \<and> hd (enum c) \<in> set c
           \<and> representative enum cs x = Some (hd (enum c))"
proof -
  have dist: "distinct (concat cs)" and cover: "set (concat cs) = nodes es"
    using P unfolding partition_of_def by blast+
  from x cover obtain c where c: "c \<in> set cs" "x \<in> set c" by auto
  have "enum c \<noteq> []" using enum c(2) by (metis empty_iff empty_set)
  then have "hd (enum c) \<in> set (enum c)" by simp
  then have "hd (enum c) \<in> set c" using enum by simp
  moreover have "representative enum cs x = Some (hd (enum c))"
    using find_component [OF dist c] by (simp add: representative_def)
  ultimately show ?thesis using c by blast
qed

lemma canonical_id_outside: "x \<notin> nodes es \<Longrightarrow> canonical_id enum es x = x"
  using representative_outside [OF partition_of_connected_components]
  by (simp add: canonical_id_def)

lemma canonical_id_inside:
  assumes enum: "\<forall>c. set (enum c) = set c" and x: "x \<in> nodes es"
  shows "(x, canonical_id enum es x) \<in> connected es"
    and "canonical_id enum es x \<in> nodes es"
    and "(x, y) \<in> connected es \<Longrightarrow> canonical_id enum es y = canonical_id enum es x"
proof -
  let ?cs = "connected_components es"
  have P: "partition_of es ?cs" by (rule partition_of_connected_components)
  from representative_inside [OF P enum x] obtain c where
    c: "c \<in> set ?cs" "x \<in> set c" "hd (enum c) \<in> set c"
    and r: "representative enum ?cs x = Some (hd (enum c))" by blast
  have cx: "canonical_id enum es x = hd (enum c)" using r by (simp add: canonical_id_def)
  have sound: "\<forall>c\<in>set ?cs. \<forall>x\<in>set c. \<forall>y\<in>set c. (x, y) \<in> connected es"
    and cover: "set (concat ?cs) = nodes es" and dist: "distinct (concat ?cs)"
    using P unfolding partition_of_def by blast+
  show "(x, canonical_id enum es x) \<in> connected es" using sound c cx by simp
  show "canonical_id enum es x \<in> nodes es" using cover c(1,3) cx by auto
  show "canonical_id enum es y = canonical_id enum es x" if "(x, y) \<in> connected es"
  proof -
    have "y \<in> set c" using partition_closed [OF P c(1,2) that] .
    then have "find (\<lambda>d. y \<in> set d) ?cs = Some c" using find_component [OF dist c(1)] by blast
    then show ?thesis using cx by (simp add: canonical_id_def representative_def)
  qed
qed

lemma canonical_id_idem:
  assumes enum: "\<forall>c. set (enum c) = set c"
  shows "canonical_id enum es (canonical_id enum es x) = canonical_id enum es x"
proof (cases "x \<in> nodes es")
  case True
  then show ?thesis using canonical_id_inside(1,3) [OF enum True] by blast
next
  case False
  then show ?thesis by (simp add: canonical_id_outside)
qed

lemma merge_stitch_list_canonical:
  assumes enum: "\<forall>c. set (enum c) = set c"
  shows "merge_stitch_list enum es max_label =
     (if \<forall>i\<in>nodes es. i \<le> max_label
      then Inr (representative enum (connected_components es),
                map (canonical_id enum es) [0 ..< max_label + 1])
      else Inl IndexError)"
  unfolding merge_stitch_list_eq [OF enum] canonical_id_def by (rule refl)

lemma merge_stitch_list_nth:
  assumes enum: "\<forall>c. set (enum c) = set c"
    and run: "merge_stitch_list enum es max_label = Inr (md, remap)"
  shows "length remap = max_label + 1"
    and "\<forall>i\<in>nodes es. i \<le> max_label"
    and "x \<le> max_label \<Longrightarrow> remap ! x = canonical_id enum es x"
proof -
  have ok: "\<forall>i\<in>nodes es. i \<le> max_label"
    using run unfolding merge_stitch_list_canonical [OF enum] by (auto split: if_splits)
  then have remap: "remap = map (canonical_id enum es) [0 ..< max_label + 1]"
    using run unfolding merge_stitch_list_canonical [OF enum] by auto
  show "\<forall>i\<in>nodes es. i \<le> max_label" by (rule ok)
  show "length remap = max_label + 1" using remap by simp
  show "remap ! x = canonical_id enum es x" if "x \<le> max_label"
    using that remap by (simp del: upt_Suc)
qed

section \<open>The merge list of every name\<close>

lemma merge_name_Inr:
  assumes "merge_name enum sl mls name st = Inr st'"
  obtains es ml md remap where
    "sl name = Some es" "mls name = Some ml"
    "merge_stitch_list enum es ml = Inr (md, remap)"
    "st' = ((fst st)(name \<mapsto> md), (snd st)(name \<mapsto> remap))"
  using assms unfolding merge_name_def
  by (auto split: prod.splits option.splits sum.splits)

lemma for_each_merge_name:
  assumes "for_each (merge_name enum sl mls) names st = Inr st'"
  shows "(\<forall>name\<in>set names. \<exists>es ml md remap.
            sl name = Some es \<and> mls name = Some ml
          \<and> merge_stitch_list enum es ml = Inr (md, remap)
          \<and> fst st' name = Some md \<and> snd st' name = Some remap)
       \<and> (\<forall>name. name \<notin> set names \<longrightarrow> fst st' name = fst st name \<and> snd st' name = snd st name)"
  using assms
proof (induction names arbitrary: st)
  case Nil
  then show ?case by simp
next
  case (Cons name names)
  from Cons.prems obtain st1 where
    s1: "merge_name enum sl mls name st = Inr st1" and
    s2: "for_each (merge_name enum sl mls) names st1 = Inr st'"
    by (auto split: sum.splits)
  from s1 obtain es ml md remap where
    h: "sl name = Some es" "mls name = Some ml" "merge_stitch_list enum es ml = Inr (md, remap)"
    and st1: "st1 = ((fst st)(name \<mapsto> md), (snd st)(name \<mapsto> remap))"
    by (rule merge_name_Inr)
  note IH = Cons.IH [OF s2]
  have head: "\<exists>es ml md remap.
            sl name = Some es \<and> mls name = Some ml
          \<and> merge_stitch_list enum es ml = Inr (md, remap)
          \<and> fst st' name = Some md \<and> snd st' name = Some remap"
  proof (cases "name \<in> set names")
    case True
    then show ?thesis using IH by blast
  next
    case False
    then have "fst st' name = Some md" "snd st' name = Some remap" using IH st1 by simp_all
    then show ?thesis using h by blast
  qed
  have rest: "\<forall>n. n \<notin> set (name # names) \<longrightarrow> fst st' n = fst st n \<and> snd st' n = snd st n"
    using IH st1 by simp
  show ?case using head IH rest by auto
qed

lemma for_each_merge_name_success:
  assumes "\<forall>name\<in>set names. \<exists>es ml r. sl name = Some es \<and> mls name = Some ml
             \<and> merge_stitch_list enum es ml = Inr r"
  shows "\<exists>st'. for_each (merge_name enum sl mls) names st = Inr st'"
  using assms
proof (induction names arbitrary: st)
  case Nil
  then show ?case by simp
next
  case (Cons name names)
  then obtain es ml r where h: "sl name = Some es" "mls name = Some ml"
    "merge_stitch_list enum es ml = Inr r" by auto
  obtain md remap where r: "r = (md, remap)" by (cases r)
  have "merge_name enum sl mls name st = Inr ((fst st)(name \<mapsto> md), (snd st)(name \<mapsto> remap))"
    using h r by (simp add: merge_name_def split: prod.splits)
  then show ?case using Cons.IH Cons.prems by simp
qed

lemma make_merge_list_name:
  assumes enum: "\<forall>c. set (enum c) = set c"
    and run: "make_merge_list enum names sl mls = Inr (merge_dict, merge_list_dict)"
    and name: "name \<in> set names"
  shows "\<exists>es ml md remap. sl name = Some es \<and> mls name = Some ml
           \<and> merge_dict name = Some md \<and> merge_list_dict name = Some remap
           \<and> length remap = ml + 1 \<and> (\<forall>i\<in>nodes es. i \<le> ml)
           \<and> (\<forall>x\<le>ml. remap ! x = canonical_id enum es x)"
proof -
  from for_each_merge_name [OF run [unfolded make_merge_list_def]] name
  obtain es ml md remap where
    h: "sl name = Some es" "mls name = Some ml" "merge_stitch_list enum es ml = Inr (md, remap)"
       "merge_dict name = Some md" "merge_list_dict name = Some remap"
    by auto
  from merge_stitch_list_nth [OF enum h(3)] h show ?thesis by blast
qed

section \<open>Ids with a common canonical id\<close>

lemma canonical_id_eq_iff:
  assumes enum: "\<forall>c. set (enum c) = set c"
  shows "canonical_id enum es x = canonical_id enum es y
           \<longleftrightarrow> x = y \<or> (x \<in> nodes es \<and> (x, y) \<in> connected es)"
proof
  assume eq: "canonical_id enum es x = canonical_id enum es y"
  show "x = y \<or> (x \<in> nodes es \<and> (x, y) \<in> connected es)"
  proof (cases "x \<in> nodes es")
    case x: True
    show ?thesis
    proof (cases "y \<in> nodes es")
      case y: True
      have "(x, canonical_id enum es x) \<in> connected es"
        using canonical_id_inside(1) [OF enum x] .
      moreover have "(y, canonical_id enum es y) \<in> connected es"
        using canonical_id_inside(1) [OF enum y] .
      ultimately have "(x, y) \<in> connected es"
        using eq connected_sym connected_trans by metis
      then show ?thesis using x by simp
    next
      case False
      then have "canonical_id enum es y = y" by (rule canonical_id_outside)
      then have "y \<in> nodes es" using canonical_id_inside(2) [OF enum x] eq by simp
      then show ?thesis using False by simp
    qed
  next
    case x: False
    then have cx: "canonical_id enum es x = x" by (rule canonical_id_outside)
    show ?thesis
    proof (cases "y \<in> nodes es")
      case True
      then have "x \<in> nodes es" using canonical_id_inside(2) [OF enum True] eq cx by simp
      then show ?thesis using x by simp
    next
      case False
      then have "canonical_id enum es y = y" by (rule canonical_id_outside)
      then show ?thesis using eq cx by simp
    qed
  qed
next
  assume "x = y \<or> (x \<in> nodes es \<and> (x, y) \<in> connected es)"
  then show "canonical_id enum es x = canonical_id enum es y"
    using canonical_id_inside(3) [OF enum] by auto
qed

lemma make_merge_list_total:
  assumes enum: "\<forall>c. set (enum c) = set c"
    and inputs: "\<forall>name\<in>set hdf5names. \<exists>es ml.
                   stitch_list name = Some es \<and> max_labels' name = Some ml
                 \<and> (\<forall>x\<in>nodes es. x \<le> ml)"
  shows "\<exists>merge_dict merge_list_dict.
           make_merge_list enum hdf5names stitch_list max_labels'
             = Inr (merge_dict, merge_list_dict)
         \<and> (\<forall>name\<in>set hdf5names. \<forall>es ml.
               stitch_list name = Some es \<longrightarrow> max_labels' name = Some ml \<longrightarrow>
               (\<exists>remap. merge_list_dict name = Some remap \<and> length remap = ml + 1
                  \<and> (\<forall>x\<le>ml. remap ! x = canonical_id enum es x)))"
proof -
  have "\<forall>name\<in>set hdf5names. \<exists>es ml r. stitch_list name = Some es \<and> max_labels' name = Some ml
          \<and> merge_stitch_list enum es ml = Inr r"
  proof
    fix name assume "name \<in> set hdf5names"
    then obtain es ml where h: "stitch_list name = Some es" "max_labels' name = Some ml"
      "\<forall>x\<in>nodes es. x \<le> ml" using inputs by blast
    then have "\<exists>r. merge_stitch_list enum es ml = Inr r"
      by (simp add: merge_stitch_list_canonical [OF enum])
    then show "\<exists>es ml r. stitch_list name = Some es \<and> max_labels' name = Some ml
          \<and> merge_stitch_list enum es ml = Inr r" using h by blast
  qed
  from for_each_merge_name_success [OF this]
  obtain merge_dict merge_list_dict where
    run: "make_merge_list enum hdf5names stitch_list max_labels' = Inr (merge_dict, merge_list_dict)"
    unfolding make_merge_list_def by (metis surj_pair)
  have "\<exists>remap. merge_list_dict name = Some remap \<and> length remap = ml + 1
          \<and> (\<forall>x\<le>ml. remap ! x = canonical_id enum es x)"
    if name: "name \<in> set hdf5names" and es: "stitch_list name = Some es"
      and ml: "max_labels' name = Some ml" for name es ml
    using make_merge_list_name [OF enum run name] es ml by auto
  then show ?thesis using run by blast
qed

lemma cpython_order_set: "set (cpython_order es c) = set c"
  by (simp add: cpython_order_def Let_def split: list.splits)

section \<open>Properties of the merge list\<close>

lemma connected_nodes:
  assumes "x \<in> nodes es" and "(x, y) \<in> connected es"
  shows "y \<in> nodes es"
proof -
  let ?cs = "connected_components es"
  have P: "partition_of es ?cs" by (rule partition_of_connected_components)
  then have cover: "set (concat ?cs) = nodes es" unfolding partition_of_def by blast
  then obtain c where c: "c \<in> set ?cs" "x \<in> set c" using assms(1) by auto
  have "y \<in> set c" using partition_closed [OF P c assms(2)] .
  then show ?thesis using cover c(1) by auto
qed

lemma canonical_id_bound:
  assumes enum: "\<forall>c. set (enum c) = set c" and "\<forall>i\<in>nodes es. i \<le> ml" and "x \<le> ml"
  shows "canonical_id enum es x \<le> ml"
proof (cases "x \<in> nodes es")
  case True
  then show ?thesis using canonical_id_inside(2) [OF enum True] assms(2) by blast
next
  case False
  then show ?thesis using assms(3) by (simp add: canonical_id_outside)
qed

lemma slot_order_set: "set (slot_order c) = set c"
  by (simp add: slot_order_def)

text \<open>
  Claim C5: the remap that make\_merge\_list produces for a name is idempotent,
  \<open>remap[remap[x]] = remap[x]\<close> for every id \<open>x\<close> from 0 to the maximal label, in
  whatever order the members of a component are listed; consequently applying the
  merge list to labels that were already remapped changes nothing. Applying the merge
  list to an array of labels is the lookup \<^verbatim>\<open>remap[labels]\<close> of every label in the
  array that make\_merge\_list returns.
\<close>

theorem merge_list_idempotent:
  assumes enum: "\<forall>c. set (enum c) = set c"
    and run: "make_merge_list enum hdf5names stitch_list max_labels'
                = Inr (merge_dict, merge_list_dict)"
    and name: "name \<in> set hdf5names"
  shows "\<exists>max_label remap.
           max_labels' name = Some max_label \<and> merge_list_dict name = Some remap
         \<and> length remap = max_label + 1
         \<and> (\<forall>x\<le>max_label. remap ! x \<le> max_label \<and> remap ! (remap ! x) = remap ! x)
         \<and> (\<forall>labels. (\<forall>l\<in>set labels. l \<le> max_label) \<longrightarrow>
                map (\<lambda>l. remap ! l) (map (\<lambda>l. remap ! l) labels) = map (\<lambda>l. remap ! l) labels)"
proof -
  from make_merge_list_name [OF enum run name]
  obtain es ml md remap where
    h: "stitch_list name = Some es" "max_labels' name = Some ml"
       "merge_list_dict name = Some remap" "length remap = ml + 1"
       "\<forall>i\<in>nodes es. i \<le> ml" "\<forall>x\<le>ml. remap ! x = canonical_id enum es x"
    by blast
  have idem: "remap ! x \<le> ml \<and> remap ! (remap ! x) = remap ! x" if "x \<le> ml" for x
  proof -
    have b: "canonical_id enum es x \<le> ml" using canonical_id_bound [OF enum h(5) that] .
    then show ?thesis using h(6) that canonical_id_idem [OF enum] by simp
  qed
  then have "\<forall>labels. (\<forall>l\<in>set labels. l \<le> ml) \<longrightarrow>
                map (\<lambda>l. remap ! l) (map (\<lambda>l. remap ! l) labels) = map (\<lambda>l. remap ! l) labels"
    by simp
  then show ?thesis using h(2,3,4) idem by blast
qed

theorem merge_list_idempotent_witness:
  "map_sum id (\<lambda>t. snd t ''sj'')
     (make_merge_list slot_order [''sj''] [''sj'' \<mapsto> [(1, 8), (3, 4), (5, 4)]] [''sj'' \<mapsto> 9])
     = Inr (Some [0, 8, 2, 3, 3, 3, 6, 7, 8, 9])
   \<and> map (\<lambda>l. [0, 8, 2, 3, 3, 3, 6, 7, 8, 9 :: nat] ! l)
         (map (\<lambda>l. [0, 8, 2, 3, 3, 3, 6, 7, 8, 9] ! l) [1, 5, 0, 8, 4])
     = map (\<lambda>l. [0, 8, 2, 3, 3, 3, 6, 7, 8, 9] ! l) [1, 5, 0, 8, 4]"
proof -
  let ?run = "make_merge_list slot_order [''sj''] [''sj'' \<mapsto> [(1, 8), (3, 4), (5, 4)]] [''sj'' \<mapsto> 9]"
  let ?remap = "[0, 8, 2, 3, 3, 3, 6, 7, 8, 9 :: nat]"
  have "\<not> isl ?run" by code_simp
  then obtain md mld where ev: "?run = Inr (md, mld)" by (cases ?run) auto
  have enum: "\<forall>c. set (slot_order c) = set c" by (simp add: slot_order_set)
  have name: "''sj'' \<in> set [''sj'']" by simp
  have r: "map_sum id (\<lambda>t. snd t ''sj'') ?run = Inr (Some ?remap)"
    by code_simp
  then have mld: "mld ''sj'' = Some ?remap" unfolding ev by simp
  have ml: "[''sj'' \<mapsto> 9 :: nat] ''sj'' = Some 9" by simp
  from merge_list_idempotent [OF enum ev name] mld ml
  have all: "\<forall>labels. (\<forall>l\<in>set labels. l \<le> 9) \<longrightarrow>
                map (\<lambda>l. ?remap ! l) (map (\<lambda>l. ?remap ! l) labels) = map (\<lambda>l. ?remap ! l) labels"
    by auto
  have "\<forall>l\<in>set [1, 5, 0, 8, 4 :: nat]. l \<le> 9" by simp
  with all have "map (\<lambda>l. ?remap ! l) (map (\<lambda>l. ?remap ! l) [1, 5, 0, 8, 4])
                 = map (\<lambda>l. ?remap ! l) [1, 5, 0, 8, 4]"
    by blast
  then show ?thesis using r by blast
qed

text \<open>
  Claim C1, as the code has it: when every name has a stitch list and a maximal label at
  least as large as every id of the list, make\_merge\_list returns, and the remap of
  each name maps every member of a connected component of the edge graph to one common
  id that is itself a member of that component (the first member in the iteration order
  of the component), and maps every id that occurs in no edge, background 0 and the ids
  of isolated objects among them, to itself. After a permutation of the stitch lists,
  whatever the iteration orders of the two runs are, the remap groups the ids as before:
  two ids have a common id after the permutation exactly when they had one before. The
  common id itself may change.
\<close>

theorem merge_list_common_member:
  assumes enum: "\<forall>c. set (enum c) = set c"
    and inputs: "\<forall>name\<in>set hdf5names. \<exists>es ml.
                   stitch_list name = Some es \<and> max_labels' name = Some ml
                 \<and> (\<forall>x\<in>nodes es. x \<le> ml)"
  shows "\<exists>merge_dict merge_list_dict.
           make_merge_list enum hdf5names stitch_list max_labels'
             = Inr (merge_dict, merge_list_dict)
         \<and> (\<forall>name\<in>set hdf5names. \<forall>es ml.
               stitch_list name = Some es \<longrightarrow> max_labels' name = Some ml \<longrightarrow>
               (\<exists>remap. merge_list_dict name = Some remap \<and> length remap = ml + 1
                  \<and> (\<forall>x\<in>nodes es.
                         (x, remap ! x) \<in> connected es
                       \<and> (\<forall>y. (x, y) \<in> connected es \<longrightarrow> remap ! y = remap ! x))
                  \<and> (\<forall>x\<le>ml. x \<notin> nodes es \<longrightarrow> remap ! x = x)))
         \<and> ((\<forall>c. set (enum' c) = set c)
              \<and> (\<forall>name\<in>set hdf5names. \<exists>es es'.
                    stitch_list name = Some es \<and> stitch_list' name = Some es'
                  \<and> mset es' = mset es)
            \<longrightarrow> (\<exists>merge_dict' merge_list_dict'.
                   make_merge_list enum' hdf5names stitch_list' max_labels'
                     = Inr (merge_dict', merge_list_dict')
                 \<and> (\<forall>name\<in>set hdf5names. \<exists>remap remap'.
                       merge_list_dict name = Some remap \<and> merge_list_dict' name = Some remap'
                     \<and> length remap' = length remap
                     \<and> (\<forall>x<length remap. \<forall>y<length remap.
                            (remap' ! x = remap' ! y) = (remap ! x = remap ! y)))))"
proof -
  from make_merge_list_total [OF enum inputs]
  obtain merge_dict merge_list_dict where
    run: "make_merge_list enum hdf5names stitch_list max_labels'
            = Inr (merge_dict, merge_list_dict)"
    and tab: "\<forall>name\<in>set hdf5names. \<forall>es ml.
               stitch_list name = Some es \<longrightarrow> max_labels' name = Some ml \<longrightarrow>
               (\<exists>remap. merge_list_dict name = Some remap \<and> length remap = ml + 1
                  \<and> (\<forall>x\<le>ml. remap ! x = canonical_id enum es x))"
    by blast
  have members: "\<exists>remap. merge_list_dict name = Some remap \<and> length remap = ml + 1
          \<and> (\<forall>x\<in>nodes es.
                 (x, remap ! x) \<in> connected es
               \<and> (\<forall>y. (x, y) \<in> connected es \<longrightarrow> remap ! y = remap ! x))
          \<and> (\<forall>x\<le>ml. x \<notin> nodes es \<longrightarrow> remap ! x = x)"
    if name: "name \<in> set hdf5names" and es: "stitch_list name = Some es"
      and ml: "max_labels' name = Some ml" for name es ml
  proof -
    from tab name es ml obtain remap where
      h: "merge_list_dict name = Some remap" "length remap = ml + 1"
         "\<forall>x\<le>ml. remap ! x = canonical_id enum es x"
      by blast
    have bound: "\<forall>i\<in>nodes es. i \<le> ml" using inputs name es ml by fastforce
    have inside: "(x, remap ! x) \<in> connected es
                \<and> (\<forall>y. (x, y) \<in> connected es \<longrightarrow> remap ! y = remap ! x)"
      if x: "x \<in> nodes es" for x
    proof (intro conjI allI impI)
      have rx: "remap ! x = canonical_id enum es x" using h(3) bound x by simp
      show "(x, remap ! x) \<in> connected es"
        using canonical_id_inside(1) [OF enum x] rx by simp
      fix y assume xy: "(x, y) \<in> connected es"
      have "y \<in> nodes es" using connected_nodes [OF x xy] .
      then have "remap ! y = canonical_id enum es y" using h(3) bound by simp
      then show "remap ! y = remap ! x"
        using canonical_id_inside(3) [OF enum x xy] rx by simp
    qed
    have outside: "\<forall>x\<le>ml. x \<notin> nodes es \<longrightarrow> remap ! x = x"
      using h(3) by (simp add: canonical_id_outside)
    show ?thesis using h(1,2) inside outside by blast
  qed
  have grouping: "\<exists>merge_dict' merge_list_dict'.
                   make_merge_list enum' hdf5names stitch_list' max_labels'
                     = Inr (merge_dict', merge_list_dict')
                 \<and> (\<forall>name\<in>set hdf5names. \<exists>remap remap'.
                       merge_list_dict name = Some remap \<and> merge_list_dict' name = Some remap'
                     \<and> length remap' = length remap
                     \<and> (\<forall>x<length remap. \<forall>y<length remap.
                            (remap' ! x = remap' ! y) = (remap ! x = remap ! y)))"
    if enum': "\<forall>c. set (enum' c) = set c"
      and perm: "\<forall>name\<in>set hdf5names. \<exists>es es'.
                    stitch_list name = Some es \<and> stitch_list' name = Some es'
                  \<and> mset es' = mset es"
  proof -
    have inputs': "\<forall>name\<in>set hdf5names. \<exists>es ml.
                   stitch_list' name = Some es \<and> max_labels' name = Some ml
                 \<and> (\<forall>x\<in>nodes es. x \<le> ml)"
    proof
      fix name assume name: "name \<in> set hdf5names"
      from perm name obtain es es' where
        e: "stitch_list name = Some es" "stitch_list' name = Some es'" "mset es' = mset es"
        by blast
      from inputs name e(1) obtain ml where
        m: "max_labels' name = Some ml" "\<forall>x\<in>nodes es. x \<le> ml" by fastforce
      have "set es' = set es" using e(3) by (rule mset_eq_setD)
      then have "nodes es' = nodes es" by (rule nodes_set_eq)
      then show "\<exists>es ml. stitch_list' name = Some es \<and> max_labels' name = Some ml
                 \<and> (\<forall>x\<in>nodes es. x \<le> ml)"
        using e(2) m by auto
    qed
    from make_merge_list_total [OF enum' inputs']
    obtain merge_dict' merge_list_dict' where
      run': "make_merge_list enum' hdf5names stitch_list' max_labels'
              = Inr (merge_dict', merge_list_dict')"
      and tab': "\<forall>name\<in>set hdf5names. \<forall>es ml.
               stitch_list' name = Some es \<longrightarrow> max_labels' name = Some ml \<longrightarrow>
               (\<exists>remap. merge_list_dict' name = Some remap \<and> length remap = ml + 1
                  \<and> (\<forall>x\<le>ml. remap ! x = canonical_id enum' es x))"
      by blast
    have "\<exists>remap remap'.
            merge_list_dict name = Some remap \<and> merge_list_dict' name = Some remap'
          \<and> length remap' = length remap
          \<and> (\<forall>x<length remap. \<forall>y<length remap.
                 (remap' ! x = remap' ! y) = (remap ! x = remap ! y))"
      if name: "name \<in> set hdf5names" for name
    proof -
      from perm name obtain es es' where
        e: "stitch_list name = Some es" "stitch_list' name = Some es'" "mset es' = mset es"
        by blast
      from inputs name e(1) obtain ml where m: "max_labels' name = Some ml" by fastforce
      from tab name e(1) m obtain remap where
        r: "merge_list_dict name = Some remap" "length remap = ml + 1"
           "\<forall>x\<le>ml. remap ! x = canonical_id enum es x"
        by blast
      from tab' name e(2) m obtain remap' where
        r': "merge_list_dict' name = Some remap'" "length remap' = ml + 1"
            "\<forall>x\<le>ml. remap' ! x = canonical_id enum' es' x"
        by blast
      have s: "set es' = set es" using e(3) by (rule mset_eq_setD)
      have n: "nodes es' = nodes es" and k: "connected es' = connected es"
        using nodes_set_eq [OF s] connected_set_eq [OF s] by simp_all
      have "(remap' ! x = remap' ! y) = (remap ! x = remap ! y)"
        if "x < length remap" and "y < length remap" for x y
      proof -
        have xy: "x \<le> ml" "y \<le> ml" using that r(2) by simp_all
        have "(remap' ! x = remap' ! y)
                = (x = y \<or> (x \<in> nodes es' \<and> (x, y) \<in> connected es'))"
          using r'(3) xy canonical_id_eq_iff [OF enum', of es' x y] by simp
        moreover have "(remap ! x = remap ! y)
                = (x = y \<or> (x \<in> nodes es \<and> (x, y) \<in> connected es))"
          using r(3) xy canonical_id_eq_iff [OF enum, of es x y] by simp
        ultimately show ?thesis unfolding n k by simp
      qed
      then show ?thesis using r(1,2) r'(1,2) by auto
    qed
    then show ?thesis using run' by blast
  qed
  show ?thesis
    using run members grouping
    by (intro exI [of _ merge_dict] exI [of _ merge_list_dict]) blast
qed

theorem merge_list_common_member_witness:
  "map_sum id (\<lambda>t. snd t ''sj'')
     (make_merge_list (cpython_order [(8, 16), (16, 24), (3, 4)]) [''sj'']
        [''sj'' \<mapsto> [(8, 16), (16, 24), (3, 4)]] [''sj'' \<mapsto> 24])
     = Inr (Some [0, 1, 2, 3, 3, 5, 6, 7, 8, 9, 10, 11, 12, 13, 14, 15, 8, 17, 18, 19,
                  20, 21, 22, 23, 8])
   \<and> map_sum id (\<lambda>t. snd t ''sj'')
       (make_merge_list (cpython_order [(3, 4), (16, 24), (8, 16)]) [''sj'']
          [''sj'' \<mapsto> [(3, 4), (16, 24), (8, 16)]] [''sj'' \<mapsto> 24])
     = Inr (Some [0, 1, 2, 3, 3, 5, 6, 7, 16, 9, 10, 11, 12, 13, 14, 15, 16, 17, 18, 19,
                  20, 21, 22, 23, 16])
   \<and> ([0, 1, 2, 3, 3, 5, 6, 7, 16, 9, 10, 11, 12, 13, 14, 15, 16, 17, 18, 19,
        20, 21, 22, 23, 16 :: nat] ! 8
      = [0, 1, 2, 3, 3, 5, 6, 7, 16, 9, 10, 11, 12, 13, 14, 15, 16, 17, 18, 19,
         20, 21, 22, 23, 16] ! 24)
     = ([0, 1, 2, 3, 3, 5, 6, 7, 8, 9, 10, 11, 12, 13, 14, 15, 8, 17, 18, 19,
         20, 21, 22, 23, 8 :: nat] ! 8
      = [0, 1, 2, 3, 3, 5, 6, 7, 8, 9, 10, 11, 12, 13, 14, 15, 8, 17, 18, 19,
         20, 21, 22, 23, 8] ! 24)"
proof -
  let ?es = "[(8, 16), (16, 24), (3, 4 :: nat)]"
  let ?es' = "[(3, 4), (16, 24), (8, 16 :: nat)]"
  let ?sl = "[''sj'' \<mapsto> ?es] :: string \<rightharpoonup> edge list"
  let ?sl' = "[''sj'' \<mapsto> ?es'] :: string \<rightharpoonup> edge list"
  let ?mls = "[''sj'' \<mapsto> 24] :: string \<rightharpoonup> nat"
  let ?r = "[0, 1, 2, 3, 3, 5, 6, 7, 8, 9, 10, 11, 12, 13, 14, 15, 8, 17, 18, 19,
             20, 21, 22, 23, 8 :: nat]"
  let ?r' = "[0, 1, 2, 3, 3, 5, 6, 7, 16, 9, 10, 11, 12, 13, 14, 15, 16, 17, 18, 19,
              20, 21, 22, 23, 16 :: nat]"
  have enum: "\<forall>c. set (cpython_order ?es c) = set c" by (simp add: cpython_order_set)
  have enum': "\<forall>c. set (cpython_order ?es' c) = set c" by (simp add: cpython_order_set)
  have inputs: "\<forall>name\<in>set [''sj'']. \<exists>es ml.
                   ?sl name = Some es \<and> ?mls name = Some ml \<and> (\<forall>x\<in>nodes es. x \<le> ml)"
    by (simp add: nodes_def)
  have perm: "\<forall>name\<in>set [''sj'']. \<exists>es es'.
                  ?sl name = Some es \<and> ?sl' name = Some es' \<and> mset es' = mset es"
    by simp
  have v: "map_sum id (\<lambda>t. snd t ''sj'')
             (make_merge_list (cpython_order ?es) [''sj''] ?sl ?mls) = Inr (Some ?r)"
    by code_simp
  have v': "map_sum id (\<lambda>t. snd t ''sj'')
             (make_merge_list (cpython_order ?es') [''sj''] ?sl' ?mls) = Inr (Some ?r')"
    by code_simp
  note inst = merge_list_common_member [OF enum inputs, of "cpython_order ?es'" ?sl']
  from inst obtain md mld where
    run: "make_merge_list (cpython_order ?es) [''sj''] ?sl ?mls = Inr (md, mld)"
    and G: "(\<forall>c. set (cpython_order ?es' c) = set c)
              \<and> (\<forall>name\<in>set [''sj'']. \<exists>es es'.
                    ?sl name = Some es \<and> ?sl' name = Some es' \<and> mset es' = mset es)
            \<longrightarrow> (\<exists>merge_dict' merge_list_dict'.
                   make_merge_list (cpython_order ?es') [''sj''] ?sl' ?mls
                     = Inr (merge_dict', merge_list_dict')
                 \<and> (\<forall>name\<in>set [''sj'']. \<exists>remap remap'.
                       mld name = Some remap \<and> merge_list_dict' name = Some remap'
                     \<and> length remap' = length remap
                     \<and> (\<forall>x<length remap. \<forall>y<length remap.
                            (remap' ! x = remap' ! y) = (remap ! x = remap ! y))))"
    by blast
  from G enum' perm obtain md' mld' where
    run': "make_merge_list (cpython_order ?es') [''sj''] ?sl' ?mls = Inr (md', mld')"
    and g0: "\<forall>name\<in>set [''sj'']. \<exists>remap remap'.
               mld name = Some remap \<and> mld' name = Some remap'
             \<and> length remap' = length remap
             \<and> (\<forall>x<length remap. \<forall>y<length remap.
                    (remap' ! x = remap' ! y) = (remap ! x = remap ! y))"
    by blast
  have "''sj'' \<in> set [''sj'']" by simp
  with g0 obtain remap remap' where
    g: "mld ''sj'' = Some remap" "mld' ''sj'' = Some remap'"
       "\<forall>x<length remap. \<forall>y<length remap.
          (remap' ! x = remap' ! y) = (remap ! x = remap ! y)"
    by blast
  have remap: "remap = ?r" using v g(1) unfolding run by simp
  have remap': "remap' = ?r'" using v' g(2) unfolding run' by simp
  have "8 < length ?r" "24 < length ?r" by simp_all
  with g(3) have "(?r' ! 8 = ?r' ! 24) = (?r ! 8 = ?r ! 24)"
    unfolding remap remap' by blast
  then show ?thesis using v v' by blast
qed

text \<open>
  Claim C1 as stated makes the common id the minimum of the component and the remap
  the same under every permutation of the stitch list. For the single edge (1, 8) the
  component is listed as 8, 1, and both ids are mapped to 8. For the stitch list
  (8, 16), (16, 24) the search starts at 8 and the component is listed as 8, 16, 24;
  for its permutation (16, 24), (8, 16) the search starts at 16 and the component is
  listed as 16, 24, 8: the three ids are mapped to 8 by the first list and to 16 by the
  second.
\<close>

theorem merge_list_not_minimum_counterexample:
  "map_sum id (\<lambda>t. snd t ''sj'')
     (make_merge_list (cpython_order [(1, 8)]) [''sj''] [''sj'' \<mapsto> [(1, 8)]] [''sj'' \<mapsto> 8])
     = Inr (Some [0, 8, 2, 3, 4, 5, 6, 7, 8])
   \<and> [0, 8, 2, 3, 4, 5, 6, 7, 8] ! 1 \<noteq> Min {1, 8 :: nat}
   \<and> mset [(16, 24), (8, 16 :: nat)] = mset [(8, 16), (16, 24 :: nat)]
   \<and> map_sum id (\<lambda>t. snd t ''sj'')
       (make_merge_list (cpython_order [(8, 16), (16, 24)]) [''sj'']
          [''sj'' \<mapsto> [(8, 16), (16, 24)]] [''sj'' \<mapsto> 24])
     = Inr (Some [0, 1, 2, 3, 4, 5, 6, 7, 8, 9, 10, 11, 12, 13, 14, 15, 8, 17, 18, 19,
                  20, 21, 22, 23, 8])
   \<and> map_sum id (\<lambda>t. snd t ''sj'')
       (make_merge_list (cpython_order [(16, 24), (8, 16)]) [''sj'']
          [''sj'' \<mapsto> [(16, 24), (8, 16)]] [''sj'' \<mapsto> 24])
     = Inr (Some [0, 1, 2, 3, 4, 5, 6, 7, 16, 9, 10, 11, 12, 13, 14, 15, 16, 17, 18, 19,
                  20, 21, 22, 23, 16])
   \<and> [0, 1, 2, 3, 4, 5, 6, 7, 8, 9, 10, 11, 12, 13, 14, 15, 8, 17, 18, 19,
       20, 21, 22, 23, 8 :: nat]
     \<noteq> [0, 1, 2, 3, 4, 5, 6, 7, 16, 9, 10, 11, 12, 13, 14, 15, 16, 17, 18, 19,
         20, 21, 22, 23, 16]"
proof -
  have a: "map_sum id (\<lambda>t. snd t ''sj'')
     (make_merge_list (cpython_order [(1, 8)]) [''sj''] [''sj'' \<mapsto> [(1, 8)]] [''sj'' \<mapsto> 8])
     = Inr (Some [0, 8, 2, 3, 4, 5, 6, 7, 8])"
    by code_simp
  have b: "map_sum id (\<lambda>t. snd t ''sj'')
       (make_merge_list (cpython_order [(8, 16), (16, 24)]) [''sj'']
          [''sj'' \<mapsto> [(8, 16), (16, 24)]] [''sj'' \<mapsto> 24])
     = Inr (Some [0, 1, 2, 3, 4, 5, 6, 7, 8, 9, 10, 11, 12, 13, 14, 15, 8, 17, 18, 19,
                  20, 21, 22, 23, 8])"
    by code_simp
  have c: "map_sum id (\<lambda>t. snd t ''sj'')
       (make_merge_list (cpython_order [(16, 24), (8, 16)]) [''sj'']
          [''sj'' \<mapsto> [(16, 24), (8, 16)]] [''sj'' \<mapsto> 24])
     = Inr (Some [0, 1, 2, 3, 4, 5, 6, 7, 16, 9, 10, 11, 12, 13, 14, 15, 16, 17, 18, 19,
                  20, 21, 22, 23, 16])"
    by code_simp
  have d: "[0, 8, 2, 3, 4, 5, 6, 7, 8] ! 1 \<noteq> Min {1, 8 :: nat}" by simp
  have e: "mset [(16, 24), (8, 16 :: nat)] = mset [(8, 16), (16, 24 :: nat)]" by simp
  have f: "[0, 1, 2, 3, 4, 5, 6, 7, 8, 9, 10, 11, 12, 13, 14, 15, 8, 17, 18, 19,
       20, 21, 22, 23, 8 :: nat]
     \<noteq> [0, 1, 2, 3, 4, 5, 6, 7, 16, 9, 10, 11, 12, 13, 14, 15, 16, 17, 18, 19,
         20, 21, 22, 23, 16]" by simp
  show ?thesis using a b c d e f by (intro conjI)
qed

end
